theory Spec2Isabelle
  imports Complex_Main "HOL-Library.Sublist"
begin

section \<open>Data model of the request scheduler (scheduler.ts)\<close>

text \<open>
  Values decoded from a response body (\<open>response.json()\<close>, \<open>response.text()\<close>) are
  JavaScript values; the scheduler tests them for truthiness before serialising them.
\<close>

datatype json =
    JNull
  | JBool bool
  | JNum real
  | JStr string
  | JArr "json list"
  | JObj "(string \<times> json) list"

fun truthy :: "json \<Rightarrow> bool" where
  "truthy JNull = False"
| "truthy (JBool b) = b"
| "truthy (JNum x) = (x \<noteq> 0)"
| "truthy (JStr s) = (s \<noteq> [])"
| "truthy (JArr xs) = True"
| "truthy (JObj kvs) = True"

text \<open>The \<open>status\<close> column of table \<open>jobs\<close>: the code only ever writes
  \<open>'processing'\<close> (INSERT) and \<open>'complete'\<close> (UPDATE).\<close>

datatype job_state = Processing | Complete

text \<open>One row of table \<open>jobs\<close>.\<close>

record job =
  jobId :: string
  startedAt :: int
  jstatus :: job_state
  rateLimit :: int
  rateUnit :: string
  lastProcessedIndex :: int

text \<open>One row of table \<open>requests\<close>. Every column but \<open>id\<close> is nullable.
  \<open>responseData\<close> holds \<open>JSON.stringify\<close> of a value; the row keeps the value itself.\<close>

record request =
  rid :: nat
  rjobId :: string
  url :: "string option"
  httpMethod :: "string option"
  headers :: "string option"
  body :: "string option"
  status :: "int option"
  responseData :: "json option"
  error :: "string option"
  processedAt :: "int option"

text \<open>The durable state: both tables in row order, the AUTOINCREMENT counter of
  \<open>requests.id\<close>, and the one alarm of the instance.\<close>

record store =
  jobs :: "job list"
  requests :: "request list"
  nextId :: nat
  alarm :: "int option"

text \<open>
  An instance of class \<open>RequestScheduler\<close>: the durable state and the private fields.
  \<open>clock\<close> is what \<open>Date.now()\<close> reads, \<open>ops\<close> counts the storage calls issued so
  far, and \<open>dispatched\<close> logs the ids of the requests handed to \<open>fetch\<close>, oldest first.
\<close>

record engine =
  storage :: store
  processing :: bool
  lastCheckpoint :: int
  currentJobId :: "string option"
  clock :: int
  ops :: nat
  dispatched :: "nat list"

subsection \<open>The environment\<close>

text \<open>
  The storage and the network are external. A world fixes what the k-th storage call
  does (it proceeds, it rejects with a message, or the process dies at it) and what
  \<open>fetch\<close> answers for a request (url, method, headers, body).
\<close>

datatype event = Proceed | Fail string | Die

record response =
  rstatus :: int
  ok :: bool
  contentType :: "string option"
  jsonBody :: "string + json"
  textBody :: "string + string"

datatype fetch_result = FetchThrew string | Responded response

record world =
  storageW :: "nat \<Rightarrow> event"
  fetchW :: "string option \<Rightarrow> string option \<Rightarrow> string option \<Rightarrow> string option \<Rightarrow> fetch_result"

text \<open>Exceptions: \<open>new Error(msg)\<close> thrown by the scheduler itself, and a rejection of
  a storage call.\<close>

datatype exn = Error string | StorageFault string

fun message :: "exn \<Rightarrow> string" where
  "message (Error m) = m"
| "message (StorageFault m) = m"

datatype 'a result = Returned 'a | Raised exn | Crashed

definition andThen ::
  "'a result \<times> engine \<Rightarrow> ('a \<Rightarrow> engine \<Rightarrow> 'b result \<times> engine) \<Rightarrow> 'b result \<times> engine" where
  "andThen m f =
     (case m of
        (Returned a, s) \<Rightarrow> f a s
      | (Raised e, s) \<Rightarrow> (Raised e, s)
      | (Crashed, s) \<Rightarrow> (Crashed, s))"

definition tryCatch ::
  "'a result \<times> engine \<Rightarrow> (exn \<Rightarrow> engine \<Rightarrow> 'a result \<times> engine) \<Rightarrow> 'a result \<times> engine" where
  "tryCatch m h =
     (case m of
        (Raised e, s) \<Rightarrow> h e s
      | (Returned a, s) \<Rightarrow> (Returned a, s)
      | (Crashed, s) \<Rightarrow> (Crashed, s))"

text \<open>A storage call that reads: \<open>prepare(sql).first/all\<close>, \<open>getAlarm\<close>.\<close>

definition storageRead :: "world \<Rightarrow> engine \<Rightarrow> (store \<Rightarrow> 'a) \<Rightarrow> 'a result \<times> engine" where
  "storageRead w s q =
     (let s' = s\<lparr>ops := Suc (ops s)\<rparr> in
      case storageW w (ops s) of
        Die \<Rightarrow> (Crashed, s')
      | Fail m \<Rightarrow> (Raised (StorageFault m), s')
      | Proceed \<Rightarrow> (Returned (q (storage s')), s'))"

text \<open>A storage call that writes: \<open>prepare(sql).run\<close>, \<open>setAlarm\<close>, \<open>deleteAlarm\<close>.
  A call that rejects, or at which the process dies, writes nothing.\<close>

definition storageWrite :: "world \<Rightarrow> engine \<Rightarrow> (store \<Rightarrow> store) \<Rightarrow> unit result \<times> engine" where
  "storageWrite w s u =
     (let s' = s\<lparr>ops := Suc (ops s)\<rparr> in
      case storageW w (ops s) of
        Die \<Rightarrow> (Crashed, s')
      | Fail m \<Rightarrow> (Raised (StorageFault m), s')
      | Proceed \<Rightarrow> (Returned (), s'\<lparr>storage := u (storage s')\<rparr>))"

section \<open>calculateDelay\<close>

text \<open>
  \<open>Math.ceil(unitInMs / rateLimit)\<close>. The quotient of the two integers is taken exactly:
  for a positive integer rate limit the double quotient of a non-integral exact quotient
  is at least \<open>1 / rateLimit\<close> away from every integer, far more than the rounding error,
  so \<open>Math.ceil\<close> of the double is the ceiling of the exact quotient. Every stored job
  has a positive rate limit (\<open>schedule\<close> validates it before the INSERT).
\<close>

definition calculateDelay :: "int \<Rightarrow> string \<Rightarrow> int" where
  "calculateDelay rl unit =
     (let unitInMs = (if unit = ''hour'' then 3600000 else if unit = ''minute'' then 60000 else (1000::int))
      in \<lceil>real_of_int unitInMs / real_of_int rl\<rceil>)"

section \<open>The draining loop (resumeProcessing)\<close>

subsection \<open>The SQL statements of the loop\<close>

text \<open>\<open>SELECT * FROM jobs WHERE status = 'processing' ORDER BY startedAt LIMIT 1\<close>.
  Rows of equal \<open>startedAt\<close> keep their row order.\<close>

definition nextQueuedJob :: "store \<Rightarrow> job option" where
  "nextQueuedJob st =
     (case sort_key startedAt (filter (\<lambda>j. jstatus j = Processing) (jobs st)) of
        [] \<Rightarrow> None
      | j # js \<Rightarrow> Some j)"

text \<open>\<open>SELECT id, url, method, headers, body FROM requests
  WHERE jobId = ? AND status IS NULL AND error IS NULL ORDER BY id\<close>.\<close>

definition pendingRequests :: "string \<Rightarrow> store \<Rightarrow> request list" where
  "pendingRequests jid st =
     sort_key rid (filter (\<lambda>r. rjobId r = jid \<and> status r = None \<and> error r = None) (requests st))"

text \<open>\<open>UPDATE requests SET status = ?, responseData = ?, processedAt = ? WHERE id = ?\<close>.\<close>

definition recordStatus :: "nat \<Rightarrow> int \<Rightarrow> json option \<Rightarrow> int \<Rightarrow> store \<Rightarrow> store" where
  "recordStatus i st d t db =
     db\<lparr>requests :=
          map (\<lambda>r. if rid r = i then r\<lparr>status := Some st, responseData := d, processedAt := Some t\<rparr> else r)
            (requests db)\<rparr>"

text \<open>\<open>UPDATE requests SET error = ?, processedAt = ? WHERE id = ?\<close>.\<close>

definition recordError :: "nat \<Rightarrow> string \<Rightarrow> int \<Rightarrow> store \<Rightarrow> store" where
  "recordError i m t db =
     db\<lparr>requests :=
          map (\<lambda>r. if rid r = i then r\<lparr>error := Some m, processedAt := Some t\<rparr> else r) (requests db)\<rparr>"

text \<open>\<open>UPDATE jobs SET lastProcessedIndex = lastProcessedIndex + 1 WHERE jobId = ?\<close>.\<close>

definition advanceProgress :: "string \<Rightarrow> store \<Rightarrow> store" where
  "advanceProgress jid db =
     db\<lparr>jobs :=
          map (\<lambda>j. if jobId j = jid then j\<lparr>lastProcessedIndex := lastProcessedIndex j + 1\<rparr> else j) (jobs db)\<rparr>"

text \<open>\<open>UPDATE jobs SET status = 'complete' WHERE jobId = ?\<close>.\<close>

definition completeJob :: "string \<Rightarrow> store \<Rightarrow> store" where
  "completeJob jid db =
     db\<lparr>jobs := map (\<lambda>j. if jobId j = jid then j\<lparr>jstatus := Complete\<rparr> else j) (jobs db)\<rparr>"

definition setAlarm :: "int \<Rightarrow> store \<Rightarrow> store" where
  "setAlarm t db = db\<lparr>alarm := Some t\<rparr>"

definition deleteAlarm :: "store \<Rightarrow> store" where
  "deleteAlarm db = db\<lparr>alarm := None\<rparr>"

subsection \<open>One request\<close>

text \<open>
  Lines 357 to 365: \<open>responseData\<close> stays \<open>null\<close> unless \<open>response.ok\<close>; then the body is
  decoded with \<open>json()\<close> when the content type includes \<open>application/json\<close>
  (\<open>contentType?.includes("application/json")\<close>, false without a content type) and read
  with \<open>text()\<close> otherwise. Either may throw (\<open>Inl\<close> the message).
\<close>

definition declaresJson :: "response \<Rightarrow> bool" where
  "declaresJson resp = (case contentType resp of None \<Rightarrow> False | Some ct \<Rightarrow> sublist ''application/json'' ct)"

definition decodeBody :: "response \<Rightarrow> string + json option" where
  "decodeBody r =
     (if ok r then
        (if declaresJson r
         then (case jsonBody r of Inl m \<Rightarrow> Inl m | Inr v \<Rightarrow> Inr (Some v))
         else (case textBody r of Inl m \<Rightarrow> Inl m | Inr t \<Rightarrow> Inr (Some (JStr t))))
      else Inr None)"

text \<open>Line 378: \<open>responseData ? JSON.stringify(responseData) : null\<close>.\<close>

definition storedData :: "json option \<Rightarrow> json option" where
  "storedData d = (case d of None \<Rightarrow> None | Some v \<Rightarrow> if truthy v then Some v else None)"

text \<open>
  The \<open>try\<close> block of lines 347 to 381. Parsing the stored headers and body, the call
  of \<open>fetch\<close> and the decoding of the response are the world's answer; the request is
  logged as dispatched; the one storage call is the UPDATE of the status.
\<close>

definition attempt :: "world \<Rightarrow> request \<Rightarrow> engine \<Rightarrow> unit result \<times> engine" where
  "attempt w r s =
     (let s1 = s\<lparr>dispatched := dispatched s @ [rid r]\<rparr> in
      case fetchW w (url r) (httpMethod r) (headers r) (body r) of
        FetchThrew m \<Rightarrow> (Raised (Error m), s1)
      | Responded resp \<Rightarrow>
          (case decodeBody resp of
             Inl m \<Rightarrow> (Raised (Error m), s1)
           | Inr d \<Rightarrow> storageWrite w s1 (recordStatus (rid r) (rstatus resp) (storedData d) (clock s1))))"

text \<open>The \<open>try\<close> block with its \<open>catch\<close> (lines 382 to 395), which records the message
  of whatever was thrown.\<close>

definition settle :: "world \<Rightarrow> request \<Rightarrow> engine \<Rightarrow> unit result \<times> engine" where
  "settle w r s =
     tryCatch (attempt w r s)
       (\<lambda>e s1. storageWrite w s1 (recordError (rid r) (message e) (clock s1)))"

text \<open>
  The body of the \<open>for\<close> loop, lines 346 to 413: the request is settled, then the
  progress counter, the alarm at \<open>Date.now() + delay + 5000\<close>, and the sleep of
  \<open>delay\<close> milliseconds.
\<close>

definition processOne :: "world \<Rightarrow> int \<Rightarrow> string \<Rightarrow> request \<Rightarrow> engine \<Rightarrow> unit result \<times> engine" where
  "processOne w delay jid r s =
     andThen (settle w r s)
       (\<lambda>u s2. andThen (storageWrite w s2 (advanceProgress jid))
          (\<lambda>u s3. andThen (storageWrite w s3 (setAlarm (clock s3 + delay + 5000)))
             (\<lambda>u s4. (Returned (), s4\<lparr>clock := clock s4 + delay\<rparr>))))"

fun processRequests :: "world \<Rightarrow> int \<Rightarrow> string \<Rightarrow> request list \<Rightarrow> engine \<Rightarrow> unit result \<times> engine" where
  "processRequests w delay jid [] s = (Returned (), s)"
| "processRequests w delay jid (r # rs) s =
     (case processOne w delay jid r s of
        (Returned u, s') \<Rightarrow> processRequests w delay jid rs s'
      | (Raised e, s') \<Rightarrow> (Raised e, s')
      | (Crashed, s') \<Rightarrow> (Crashed, s'))"

subsection \<open>The outer loop\<close>

text \<open>
  One round of the \<open>while (true)\<close> loop of lines 302 to 425: take the oldest job in
  state processing, or leave the loop (\<open>Returned False\<close>) when there is none; compute
  its delay; read its pending requests; run them; mark the job complete
  (\<open>Returned True\<close>: the loop goes on).
\<close>

definition drainRound :: "world \<Rightarrow> engine \<Rightarrow> bool result \<times> engine" where
  "drainRound w s =
     andThen (storageRead w s nextQueuedJob)
       (\<lambda>job s1.
          case job of
            None \<Rightarrow> (Returned False, s1)
          | Some j \<Rightarrow>
              andThen (storageRead w (s1\<lparr>currentJobId := Some (jobId j)\<rparr>) (pendingRequests (jobId j)))
                (\<lambda>rs s2.
                   andThen (processRequests w (calculateDelay (rateLimit j) (rateUnit j)) (jobId j) rs s2)
                     (\<lambda>u s3.
                        andThen (storageWrite w s3 (completeJob (jobId j)))
                          (\<lambda>u s4. (Returned True, s4)))))"

section \<open>What one request changes\<close>

definition pending :: "request \<Rightarrow> bool" where
  "pending r \<longleftrightarrow> status r = None \<and> error r = None"

text \<open>\<open>touched i x x'\<close>: row \<open>x'\<close> is row \<open>x\<close>, or \<open>x\<close> has id \<open>i\<close> and \<open>x'\<close> is \<open>x\<close>
  after one of the two UPDATE statements.\<close>

definition touched :: "nat \<Rightarrow> request \<Rightarrow> request \<Rightarrow> bool" where
  "touched i x x' \<longleftrightarrow>
     x' = x \<or>
     (rid x = i \<and>
       ((\<exists>st d t. x' = x\<lparr>status := Some st, responseData := d, processedAt := Some t\<rparr>) \<or>
        (\<exists>m t. x' = x\<lparr>error := Some m, processedAt := Some t\<rparr>)))"

lemma touched_refl [simp]: "touched i x x"
  by (simp add: touched_def)

lemma touched_status [simp]:
  "rid x = i \<Longrightarrow> touched i x (x\<lparr>status := Some st, responseData := d, processedAt := Some t\<rparr>)"
  unfolding touched_def by blast

lemma touched_error [simp]:
  "rid x = i \<Longrightarrow> touched i x (x\<lparr>error := Some m, processedAt := Some t\<rparr>)"
  unfolding touched_def by blast

lemma list_all2_map_same: "list_all2 P xs (map f xs) = (\<forall>x\<in>set xs. P x (f x))"
  by (induction xs) auto

lemma list_all2_touched_same [simp]: "list_all2 (touched i) xs xs"
  by (simp add: list.rel_refl)

lemma storageRead_storage:
  "storageRead w s q = (res, s') \<Longrightarrow> storage s' = storage s"
  by (auto simp: storageRead_def Let_def split: event.splits)

lemma storageRead_Returned:
  "storageRead w s q = (Returned a, s') \<Longrightarrow> a = q (storage s)"
  by (auto simp: storageRead_def Let_def split: event.splits)

lemma storageRead_frame:
  "storageRead w s q = (res, s') \<Longrightarrow> s' = s\<lparr>ops := Suc (ops s)\<rparr>"
  by (auto simp: storageRead_def Let_def split: event.splits)

lemma storageRead_event:
  "storageRead w s q = (res, s') \<Longrightarrow>
     (case res of
        Returned a \<Rightarrow> storageW w (ops s) = Proceed \<and> a = q (storage s)
      | Raised e \<Rightarrow> storageW w (ops s) = Fail (message e) \<and> e = StorageFault (message e)
      | Crashed \<Rightarrow> storageW w (ops s) = Die)"
  by (auto simp: storageRead_def Let_def split: event.splits)

lemma storageWrite_event:
  "storageWrite w s u = (res, s') \<Longrightarrow>
     (case res of
        Returned a \<Rightarrow> storageW w (ops s) = Proceed \<and> s' = s\<lparr>ops := Suc (ops s), storage := u (storage s)\<rparr>
      | Raised e \<Rightarrow> storageW w (ops s) = Fail (message e) \<and> e = StorageFault (message e)
                      \<and> s' = s\<lparr>ops := Suc (ops s)\<rparr>
      | Crashed \<Rightarrow> storageW w (ops s) = Die \<and> s' = s\<lparr>ops := Suc (ops s)\<rparr>)"
  by (auto simp: storageWrite_def Let_def split: event.splits)

lemma andThenE:
  assumes "andThen m f = (res, s')"
  obtains (continued) a s1 where "m = (Returned a, s1)" and "f a s1 = (res, s')"
    | (raised) e where "m = (Raised e, s')" and "res = Raised e"
    | (crashed) "m = (Crashed, s')" and "res = Crashed"
  using assms by (auto simp: andThen_def split: prod.splits result.splits)

lemma tryCatchE:
  assumes "tryCatch m h = (res, s')"
  obtains (caught) e s1 where "m = (Raised e, s1)" and "h e s1 = (res, s')"
    | (returned) a where "m = (Returned a, s')" and "res = Returned a"
    | (crashed) "m = (Crashed, s')" and "res = Crashed"
  using assms by (auto simp: tryCatch_def split: prod.splits result.splits)

lemma settle_touched:
  assumes "settle w r s = (res, s')"
  shows "list_all2 (touched (rid r)) (requests (storage s)) (requests (storage s'))"
  using assms
  by (auto simp add: settle_def tryCatch_def attempt_def storageWrite_def Let_def
      recordStatus_def recordError_def list_all2_map_same
      split: fetch_result.splits sum.splits event.splits prod.splits result.splits if_splits)

lemma settle_frame:
  assumes "settle w r s = (res, s')"
  shows "jobs (storage s') = jobs (storage s) \<and> nextId (storage s') = nextId (storage s)
       \<and> alarm (storage s') = alarm (storage s) \<and> processing s' = processing s
       \<and> currentJobId s' = currentJobId s \<and> clock s' = clock s \<and> lastCheckpoint s' = lastCheckpoint s
       \<and> dispatched s' = dispatched s @ [rid r] \<and> ops s < ops s'"
  using assms
  by (auto simp add: settle_def tryCatch_def attempt_def storageWrite_def Let_def
      recordStatus_def recordError_def
      split: fetch_result.splits sum.splits event.splits prod.splits result.splits if_splits)

lemma settle_Returned:
  assumes "settle w r s = (Returned u, s')" "x \<in> set (requests (storage s'))" "rid x = rid r"
  shows "\<not> pending x"
  using assms
  by (auto simp add: settle_def tryCatch_def attempt_def storageWrite_def Let_def
      recordStatus_def recordError_def pending_def
      split: fetch_result.splits sum.splits event.splits prod.splits result.splits if_splits)

lemma settle_Raised:
  assumes "settle w r s = (Raised e, s')"
  shows "storageW w (ops s' - 1) = Fail (message e) \<and> e = StorageFault (message e)"
  using assms
  by (auto simp add: settle_def tryCatch_def attempt_def storageWrite_def Let_def
      split: fetch_result.splits sum.splits event.splits prod.splits result.splits if_splits)

text \<open>The rest of the loop body, after the request is settled.\<close>

lemma processOne_tail:
  assumes "andThen (storageWrite w s2 (advanceProgress jid))
          (\<lambda>u s3. andThen (storageWrite w s3 (setAlarm (clock s3 + delay + 5000)))
             (\<lambda>u s4. (Returned (), s4\<lparr>clock := clock s4 + delay\<rparr>))) = (res, s')"
  shows "requests (storage s') = requests (storage s2)
       \<and> (jobs (storage s') = jobs (storage s2) \<or> jobs (storage s') = jobs (advanceProgress jid (storage s2)))
       \<and> nextId (storage s') = nextId (storage s2)
       \<and> processing s' = processing s2 \<and> currentJobId s' = currentJobId s2
       \<and> lastCheckpoint s' = lastCheckpoint s2 \<and> dispatched s' = dispatched s2
       \<and> ops s2 < ops s' \<and> clock s2 \<le> clock s' + (if delay < 0 then - delay else 0)
       \<and> (\<forall>e. res = Raised e \<longrightarrow> storageW w (ops s' - 1) = Fail (message e) \<and> e = StorageFault (message e))"
  using assms
  by (auto simp add: andThen_def storageWrite_def Let_def setAlarm_def advanceProgress_def
      split: event.splits prod.splits result.splits if_splits)

lemma processOne_touched:
  assumes "processOne w delay jid r s = (res, s')"
  shows "list_all2 (touched (rid r)) (requests (storage s)) (requests (storage s'))"
  using assms unfolding processOne_def
proof (cases rule: andThenE)
  case (continued a s1)
  with settle_touched [OF continued(1)] processOne_tail [OF continued(2)] show ?thesis by simp
next
  case (raised e)
  with settle_touched [OF raised(1)] show ?thesis by simp
next
  case crashed
  with settle_touched [OF crashed(1)] show ?thesis by simp
qed

lemma processOne_frame:
  assumes "processOne w delay jid r s = (res, s')"
  shows "(jobs (storage s') = jobs (storage s) \<or> jobs (storage s') = jobs (advanceProgress jid (storage s)))
       \<and> nextId (storage s') = nextId (storage s)
       \<and> processing s' = processing s \<and> currentJobId s' = currentJobId s
       \<and> lastCheckpoint s' = lastCheckpoint s \<and> dispatched s' = dispatched s @ [rid r]
       \<and> ops s < ops s'
       \<and> (\<forall>e. res = Raised e \<longrightarrow> storageW w (ops s' - 1) = Fail (message e) \<and> e = StorageFault (message e))"
  using assms unfolding processOne_def
proof (cases rule: andThenE)
  case (continued a s1)
  with settle_frame [OF continued(1)] processOne_tail [OF continued(2)] show ?thesis
    by (auto simp: advanceProgress_def)
next
  case (raised e)
  with settle_frame [OF raised(1)] settle_Raised [of w r s e s'] show ?thesis by simp
next
  case crashed
  with settle_frame [OF crashed(1)] show ?thesis by simp
qed

lemma processOne_Returned:
  assumes "processOne w delay jid r s = (Returned u, s')" "x \<in> set (requests (storage s'))" "rid x = rid r"
  shows "\<not> pending x"
  using assms(1) unfolding processOne_def
proof (cases rule: andThenE)
  case (continued a s1)
  with settle_Returned [of w r s a s1 x] processOne_tail [OF continued(2)] assms(2,3) show ?thesis
    by simp
qed simp_all

section \<open>What a run of the loop changes\<close>

text \<open>A row of \<open>requests\<close> only ever changes from pending to resolved, by one UPDATE.\<close>

definition rowAdv :: "request \<Rightarrow> request \<Rightarrow> bool" where
  "rowAdv x x' \<longleftrightarrow>
     x' = x \<or>
     (pending x \<and>
       ((\<exists>st d t. x' = x\<lparr>status := Some st, responseData := d, processedAt := Some t\<rparr>) \<or>
        (\<exists>m t. x' = x\<lparr>error := Some m, processedAt := Some t\<rparr>)))"

text \<open>A row of \<open>jobs\<close> keeps everything but its progress counter, which grows, and its
  state, which can only become complete.\<close>

definition jobAdv :: "job \<Rightarrow> job \<Rightarrow> bool" where
  "jobAdv j j' \<longleftrightarrow>
     jobId j' = jobId j \<and> startedAt j' = startedAt j \<and> rateLimit j' = rateLimit j \<and>
     rateUnit j' = rateUnit j \<and> lastProcessedIndex j \<le> lastProcessedIndex j' \<and>
     (jstatus j = Complete \<longrightarrow> jstatus j' = Complete)"

definition settledIn :: "nat set \<Rightarrow> request \<Rightarrow> request \<Rightarrow> bool" where
  "settledIn I x x' \<longleftrightarrow> (if rid x \<in> I then rowAdv x x' else x' = x)"

lemma rowAdv_refl [simp]: "rowAdv x x"
  by (simp add: rowAdv_def)

lemma rowAdv_rid: "rowAdv x x' \<Longrightarrow> rid x' = rid x \<and> rjobId x' = rjobId x"
  by (auto simp: rowAdv_def)

lemma rowAdv_resolved: "rowAdv x x' \<Longrightarrow> \<not> pending x \<Longrightarrow> x' = x"
  by (auto simp: rowAdv_def)

lemma rowAdv_trans: "rowAdv x y \<Longrightarrow> rowAdv y z \<Longrightarrow> rowAdv x z"
  by (auto simp: rowAdv_def pending_def)

lemma touched_rowAdv: "touched i x x' \<Longrightarrow> (rid x = i \<longrightarrow> pending x) \<Longrightarrow> settledIn {i} x x'"
  by (auto simp: touched_def rowAdv_def settledIn_def)

lemma settledIn_rid: "settledIn I x x' \<Longrightarrow> rid x' = rid x"
  by (auto simp: settledIn_def dest: rowAdv_rid split: if_splits)

lemma settledIn_compose:
  "settledIn {i} x y \<Longrightarrow> settledIn I y z \<Longrightarrow> i \<notin> I \<Longrightarrow> settledIn (insert i I) x z"
  by (auto simp: settledIn_def dest: rowAdv_rid split: if_splits)

lemma settledIn_rowAdv: "settledIn I x x' \<Longrightarrow> rowAdv x x'"
  by (auto simp: settledIn_def split: if_splits)

lemma list_all2_set2: "list_all2 P xs ys \<Longrightarrow> y \<in> set ys \<Longrightarrow> \<exists>x\<in>set xs. P x y"
  by (induction rule: list_all2_induct) auto

lemma list_all2_set1: "list_all2 P xs ys \<Longrightarrow> x \<in> set xs \<Longrightarrow> \<exists>y\<in>set ys. P x y"
  by (induction rule: list_all2_induct) auto

lemma jobAdv_refl [simp]: "jobAdv j j"
  by (simp add: jobAdv_def)

lemma jobAdv_trans: "jobAdv a b \<Longrightarrow> jobAdv b c \<Longrightarrow> jobAdv a c"
  by (auto simp: jobAdv_def)

text \<open>Inside the \<open>for\<close> loop the jobs keep their state.\<close>

definition jobKept :: "job \<Rightarrow> job \<Rightarrow> bool" where
  "jobKept j j' \<longleftrightarrow> jobAdv j j' \<and> jstatus j' = jstatus j"

lemma jobKept_refl [simp]: "jobKept j j"
  by (simp add: jobKept_def)

lemma jobKept_trans: "jobKept a b \<Longrightarrow> jobKept b c \<Longrightarrow> jobKept a c"
  by (auto simp: jobKept_def dest: jobAdv_trans)

lemma jobKept_advanceProgress: "list_all2 jobKept js (jobs (advanceProgress jid (db\<lparr>jobs := js\<rparr>)))"
  by (simp add: advanceProgress_def list_all2_map_same jobKept_def jobAdv_def)

lemma processOne_jobs:
  assumes "processOne w delay jid r s = (res, s')"
  shows "list_all2 jobKept (jobs (storage s)) (jobs (storage s'))"
proof -
  from processOne_frame [OF assms]
  have "jobs (storage s') = jobs (storage s) \<or> jobs (storage s') = jobs (advanceProgress jid (storage s))"
    by simp
  then show ?thesis
  proof
    assume "jobs (storage s') = jobs (storage s)"
    then show ?thesis by (simp add: list.rel_refl)
  next
    assume "jobs (storage s') = jobs (advanceProgress jid (storage s))"
    with jobKept_advanceProgress [of "jobs (storage s)" jid "storage s"] show ?thesis by simp
  qed
qed

lemma processRequests_frame:
  assumes "processRequests w delay jid rs s = (res, s')"
  shows "list_all2 jobKept (jobs (storage s)) (jobs (storage s'))
       \<and> nextId (storage s') = nextId (storage s)
       \<and> processing s' = processing s \<and> lastCheckpoint s' = lastCheckpoint s
       \<and> currentJobId s' = currentJobId s
       \<and> dispatched s' = dispatched s @ map rid (take (length (dispatched s') - length (dispatched s)) rs)
       \<and> ops s \<le> ops s'
       \<and> (\<forall>e. res = Raised e \<longrightarrow> storageW w (ops s' - 1) = Fail (message e) \<and> e = StorageFault (message e) \<and> ops s < ops s')"
  using assms
proof (induction rs arbitrary: s)
  case Nil
  then show ?case by (auto simp: list.rel_refl)
next
  case (Cons r rs)
  obtain r1 s1 where p: "processOne w delay jid r s = (r1, s1)" by (cases "processOne w delay jid r s")
  note fr = processOne_frame [OF p]
  have j1: "list_all2 jobKept (jobs (storage s)) (jobs (storage s1))" by (rule processOne_jobs [OF p])
  have d1: "dispatched s1 = dispatched s @ [rid r]" using fr by simp
  show ?case
  proof (cases r1)
    case (Returned u)
    with Cons.prems p have run: "processRequests w delay jid rs s1 = (res, s')" by simp
    note ih = Cons.IH [OF run]
    have jobs: "list_all2 jobKept (jobs (storage s)) (jobs (storage s'))"
      using list_all2_trans [of jobKept jobKept jobKept, OF _ j1] ih jobKept_trans by blast
    have len: "length (dispatched s1) \<le> length (dispatched s')"
      using ih by (metis le_add1 length_append)
    have disp: "dispatched s' = dispatched s @ map rid (take (length (dispatched s') - length (dispatched s)) (r # rs))"
    proof -
      from ih have "dispatched s' = dispatched s1 @ map rid (take (length (dispatched s') - length (dispatched s1)) rs)"
        by simp
      moreover from d1 len have "length (dispatched s') - length (dispatched s) = Suc (length (dispatched s') - length (dispatched s1))"
        by simp
      ultimately show ?thesis using d1 by simp
    qed
    from jobs disp ih fr show ?thesis by auto
  next
    case (Raised e)
    with Cons.prems p have eq: "res = Raised e" "s' = s1" by auto
    with j1 fr d1 Raised show ?thesis by auto
  next
    case Crashed
    with Cons.prems p have eq: "res = Crashed" "s' = s1" by auto
    with j1 fr d1 show ?thesis by auto
  qed
qed

lemma processRequests_rows:
  assumes "processRequests w delay jid rs s = (res, s')"
    and "distinct (map rid rs)"
    and "\<forall>x\<in>set (requests (storage s)). rid x \<in> rid ` set rs \<longrightarrow> pending x"
  shows "list_all2 (settledIn (rid ` set rs)) (requests (storage s)) (requests (storage s'))
       \<and> (res = Returned () \<longrightarrow> (\<forall>x\<in>set (requests (storage s')). rid x \<in> rid ` set rs \<longrightarrow> \<not> pending x))"
  using assms
proof (induction rs arbitrary: s)
  case Nil
  then show ?case by (auto simp: list.rel_refl settledIn_def)
next
  case (Cons r rs)
  obtain r1 s1 where p: "processOne w delay jid r s = (r1, s1)" by (cases "processOne w delay jid r s")
  have t1: "list_all2 (settledIn {rid r}) (requests (storage s)) (requests (storage s1))"
  proof (rule list.rel_mono_strong [OF processOne_touched [OF p]])
    fix x x' assume "x \<in> set (requests (storage s))" "x' \<in> set (requests (storage s1))" "touched (rid r) x x'"
    with Cons.prems(3) show "settledIn {rid r} x x'" by (intro touched_rowAdv) auto
  qed
  show ?case
  proof (cases r1)
    case (Returned u)
    with Cons.prems p have run: "processRequests w delay jid rs s1 = (res, s')" by simp
    have pend: "\<forall>x\<in>set (requests (storage s1)). rid x \<in> rid ` set rs \<longrightarrow> pending x"
    proof (intro ballI impI)
      fix x assume x: "x \<in> set (requests (storage s1))" "rid x \<in> rid ` set rs"
      from list_all2_set2 [OF t1 x(1)] obtain x0 where x0: "x0 \<in> set (requests (storage s))" "settledIn {rid r} x0 x"
        by blast
      from Cons.prems(2) x(2) have "rid x \<noteq> rid r" by auto
      with x0 settledIn_rid [OF x0(2)] have "x = x0" by (auto simp: settledIn_def)
      with x0 x(2) Cons.prems(3) show "pending x" by auto
    qed
    from Cons.prems(2) have dist: "distinct (map rid rs)" and ni: "rid r \<notin> rid ` set rs" by auto
    note ih = Cons.IH [OF run dist pend]
    have rows: "list_all2 (settledIn (rid ` set (r # rs))) (requests (storage s)) (requests (storage s'))"
      using list_all2_trans [of "settledIn {rid r}" "settledIn (rid ` set rs)" "settledIn (insert (rid r) (rid ` set rs))",
          OF _ t1 conjunct1 [OF ih]] settledIn_compose [OF _ _ ni] by simp
    have done1: "\<forall>x\<in>set (requests (storage s')). rid x \<in> rid ` set (r # rs) \<longrightarrow> \<not> pending x"
      if "res = Returned ()"
    proof (intro ballI impI)
      fix x assume x: "x \<in> set (requests (storage s'))" "rid x \<in> rid ` set (r # rs)"
      show "\<not> pending x"
      proof (cases "rid x \<in> rid ` set rs")
        case True
        with ih that x show ?thesis by blast
      next
        case False
        with x have eq: "rid x = rid r" by auto
        from list_all2_set2 [OF conjunct1 [OF ih] x(1)] obtain x1
          where x1: "x1 \<in> set (requests (storage s1))" "settledIn (rid ` set rs) x1 x" by blast
        with False settledIn_rid [OF x1(2)] have "x = x1" by (auto simp: settledIn_def)
        with processOne_Returned [of w delay jid r s u s1 x1] p Returned x1 eq show ?thesis by auto
      qed
    qed
    from rows done1 show ?thesis by auto
  next
    case (Raised e)
    with Cons.prems p have eq: "res = Raised e" "s' = s1" by auto
    have "list_all2 (settledIn (rid ` set (r # rs))) (requests (storage s)) (requests (storage s1))"
      by (rule list_all2_mono [OF t1]) (auto simp: settledIn_def split: if_splits)
    with eq show ?thesis by auto
  next
    case Crashed
    with Cons.prems p have eq: "res = Crashed" "s' = s1" by auto
    have "list_all2 (settledIn (rid ` set (r # rs))) (requests (storage s)) (requests (storage s1))"
      by (rule list_all2_mono [OF t1]) (auto simp: settledIn_def split: if_splits)
    with eq show ?thesis by auto
  qed
qed

subsection \<open>Termination of the outer loop\<close>

definition queued :: "store \<Rightarrow> nat" where
  "queued st = length (filter (\<lambda>j. jstatus j = Processing) (jobs st))"

lemma jobKept_queued:
  "list_all2 jobKept js js' \<Longrightarrow>
     length (filter (\<lambda>j. jstatus j = Processing) js') = length (filter (\<lambda>j. jstatus j = Processing) js)"
  by (induction rule: list_all2_induct) (auto simp: jobKept_def)

lemma nextQueuedJob_Some:
  assumes "nextQueuedJob st = Some j"
  shows "j \<in> set (jobs st) \<and> jstatus j = Processing"
proof -
  from assms obtain js where "sort_key startedAt (filter (\<lambda>j. jstatus j = Processing) (jobs st)) = j # js"
    by (auto simp: nextQueuedJob_def split: list.splits)
  then have "j \<in> set (sort_key startedAt (filter (\<lambda>j. jstatus j = Processing) (jobs st)))"
    by simp
  then show ?thesis by simp
qed

lemma completeJob_le:
  "length (filter (\<lambda>j. jstatus j = Processing) (map (\<lambda>x. if jobId x = jid then x\<lparr>jstatus := Complete\<rparr> else x) js))
     \<le> length (filter (\<lambda>j. jstatus j = Processing) js)"
  by (induction js) auto

lemma completeJob_fewer:
  "j \<in> set js \<Longrightarrow> jstatus j = Processing \<Longrightarrow> jobId j = jid \<Longrightarrow>
   length (filter (\<lambda>j. jstatus j = Processing) (map (\<lambda>x. if jobId x = jid then x\<lparr>jstatus := Complete\<rparr> else x) js))
     < length (filter (\<lambda>j. jstatus j = Processing) js)"
proof (induction js)
  case Nil
  then show ?case by simp
next
  case (Cons a js)
  show ?case
  proof (cases "a = j")
    case True
    with Cons.prems completeJob_le [of jid js] show ?thesis by simp
  next
    case False
    with Cons have "length (filter (\<lambda>j. jstatus j = Processing) (map (\<lambda>x. if jobId x = jid then x\<lparr>jstatus := Complete\<rparr> else x) js))
       < length (filter (\<lambda>j. jstatus j = Processing) js)" by simp
    then show ?thesis by simp
  qed
qed

lemma jobKept_find:
  "list_all2 jobKept js js' \<Longrightarrow> j \<in> set js \<Longrightarrow> \<exists>j'\<in>set js'. jobId j' = jobId j \<and> jstatus j' = jstatus j"
  by (drule (1) list_all2_set1) (auto simp: jobKept_def jobAdv_def)

lemma drainRound_cases:
  assumes "drainRound w s = (res, s')"
  obtains (idle) "storageRead w s nextQueuedJob = (Returned None, s')" and "res = Returned False"
    | (noRead) u where "storageRead w s nextQueuedJob = (u, s')"
        and "(\<exists>e. u = Raised e \<and> res = Raised e) \<or> (u = Crashed \<and> res = Crashed)"
    | (noList) j s1 u where "storageRead w s nextQueuedJob = (Returned (Some j), s1)"
        and "storageRead w (s1\<lparr>currentJobId := Some (jobId j)\<rparr>) (pendingRequests (jobId j)) = (u, s')"
        and "(\<exists>e. u = Raised e \<and> res = Raised e) \<or> (u = Crashed \<and> res = Crashed)"
    | (stopped) j s1 rs s2 u where "storageRead w s nextQueuedJob = (Returned (Some j), s1)"
        and "storageRead w (s1\<lparr>currentJobId := Some (jobId j)\<rparr>) (pendingRequests (jobId j)) = (Returned rs, s2)"
        and "processRequests w (calculateDelay (rateLimit j) (rateUnit j)) (jobId j) rs s2 = (u, s')"
        and "(\<exists>e. u = Raised e \<and> res = Raised e) \<or> (u = Crashed \<and> res = Crashed)"
    | (run) j s1 rs s2 s3 u where "storageRead w s nextQueuedJob = (Returned (Some j), s1)"
        and "storageRead w (s1\<lparr>currentJobId := Some (jobId j)\<rparr>) (pendingRequests (jobId j)) = (Returned rs, s2)"
        and "processRequests w (calculateDelay (rateLimit j) (rateUnit j)) (jobId j) rs s2 = (Returned (), s3)"
        and "storageWrite w s3 (completeJob (jobId j)) = (u, s')"
        and "(u = Returned () \<and> res = Returned True) \<or> (\<exists>e. u = Raised e \<and> res = Raised e) \<or> (u = Crashed \<and> res = Crashed)"
  using assms
  by (auto simp: drainRound_def andThen_def split: prod.splits result.splits option.splits)

lemma drainRound_True_fewer:
  assumes "drainRound w s = (Returned True, s')"
  shows "queued (storage s') < queued (storage s)"
  using assms
proof (cases rule: drainRound_cases)
  case (run j s1 rs s2 s3 u)
  from storageRead_Returned [OF run(1)] have j: "nextQueuedJob (storage s) = Some j" by simp
  from storageRead_storage [OF run(1)] storageRead_storage [OF run(2)]
  have s2: "storage s2 = storage s" by simp
  from processRequests_frame [OF run(3)] s2
  have k: "list_all2 jobKept (jobs (storage s)) (jobs (storage s3))" by simp
  from jobKept_find [OF k, of j] nextQueuedJob_Some [OF j]
  obtain j' where j': "j' \<in> set (jobs (storage s3))" "jobId j' = jobId j" "jstatus j' = Processing"
    by auto
  from run(4,5) storageWrite_event [OF run(4)]
  have s': "storage s' = completeJob (jobId j) (storage s3)" by auto
  from completeJob_fewer [OF j'(1) j'(3) j'(2)] jobKept_queued [OF k] s'
  show ?thesis by (simp add: queued_def completeJob_def)
qed simp_all

text \<open>
  The \<open>while (true)\<close> loop of lines 302 to 425. Every round that goes on has marked a
  job complete, so the number of jobs in state processing is a measure.
\<close>

function drain :: "world \<Rightarrow> engine \<Rightarrow> unit result \<times> engine" where
  "drain w s =
     (case drainRound w s of
        (Returned True, s') \<Rightarrow> drain w s'
      | (Returned False, s') \<Rightarrow> (Returned (), s')
      | (Raised e, s') \<Rightarrow> (Raised e, s')
      | (Crashed, s') \<Rightarrow> (Crashed, s'))"
  by pat_completeness auto
termination
proof (relation "measure (\<lambda>(w, s). queued (storage s))")
  show "wf (measure (\<lambda>(w, s). queued (storage s)))" by simp
next
  fix w :: world and s s' :: engine and x1 :: "bool result" and x2 :: bool
  assume "(x1, s') = drainRound w s" "x1 = Returned x2" "x2 = True"
  then have "drainRound w s = (Returned True, s')" by simp
  from drainRound_True_fewer [OF this]
  show "((w, s'), (w, s)) \<in> measure (\<lambda>(w, s). queued (storage s))" by simp
qed

text \<open>
  \<open>resumeProcessing\<close>, lines 297 to 435: nothing when the flag is set; else the flag
  is set and the loop runs inside \<open>try\<close>. After the loop the flag is reset and the alarm
  deleted, still inside \<open>try\<close>. The \<open>catch\<close> arms the alarm at \<open>Date.now() + 5000\<close> and
  throws the error again.
\<close>

definition resumeProcessing :: "world \<Rightarrow> engine \<Rightarrow> unit result \<times> engine" where
  "resumeProcessing w s =
     (if processing s then (Returned (), s)
      else
        tryCatch
          (andThen (drain w (s\<lparr>processing := True\<rparr>))
             (\<lambda>u s1. storageWrite w (s1\<lparr>currentJobId := None, processing := False\<rparr>) deleteAlarm))
          (\<lambda>e s2. andThen (storageWrite w s2 (setAlarm (clock s2 + 5000))) (\<lambda>u s3. (Raised e, s3))))"

section \<open>schedule\<close>

text \<open>\<open>initialize\<close>, lines 76 to 119: two \<open>CREATE TABLE IF NOT EXISTS\<close> statements, which
  leave the rows as they are, and
  \<open>SELECT jobId FROM jobs WHERE status = 'processing' LIMIT 1\<close>.\<close>

definition initialize :: "world \<Rightarrow> engine \<Rightarrow> unit result \<times> engine" where
  "initialize w s =
     andThen (storageWrite w s (\<lambda>db. db))
       (\<lambda>u s1. andThen (storageWrite w s1 (\<lambda>db. db))
          (\<lambda>u s2. andThen (storageRead w s2 (\<lambda>db. map_option jobId (find (\<lambda>j. jstatus j = Processing) (jobs db))))
             (\<lambda>cur s3. (Returned (), s3\<lparr>currentJobId := cur\<rparr>))))"

text \<open>
  The arguments of \<open>schedule\<close> as they arrive at run time. An entry of \<open>requests\<close> may
  lack \<open>url\<close> or \<open>method\<close>; \<open>headers\<close> is the JSON text of the headers object when there is
  one, \<open>body\<close> the JSON text of the body when it is truthy (both are stored as NULL
  otherwise). \<open>rateLimit\<close> is a number, finite or not.
\<close>

record requestConfig =
  cUrl :: "string option"
  cMethod :: "string option"
  cHeaders :: "string option"
  cBody :: "string option"

datatype requestsArg = NotAnArray | Array "requestConfig list"

datatype jsNumber = Finite real | NonFinite

record rateLimitOptions =
  oRateLimit :: jsNumber
  oUnit :: string

definition defaultOptions :: rateLimitOptions where
  "defaultOptions = \<lparr>oRateLimit = Finite 5000, oUnit = ''hour''\<rparr>"

text \<open>\<open>!req.url\<close>: the field is missing or the empty string.\<close>

definition falsy :: "string option \<Rightarrow> bool" where
  "falsy v = (case v of None \<Rightarrow> True | Some x \<Rightarrow> x = [])"

fun isInteger :: "jsNumber \<Rightarrow> bool" where
  "isInteger (Finite x) = (real_of_int \<lfloor>x\<rfloor> = x)"
| "isInteger NonFinite = False"

fun notPositive :: "jsNumber \<Rightarrow> bool" where
  "notPositive (Finite x) = (x \<le> 0)"
| "notPositive NonFinite = False"

fun entries :: "requestsArg \<Rightarrow> requestConfig list" where
  "entries NotAnArray = []"
| "entries (Array cs) = cs"

text \<open>Lines 128 to 147: the message of the first check that fails, in the order of the
  source.\<close>

definition validate :: "requestsArg \<Rightarrow> rateLimitOptions \<Rightarrow> string option" where
  "validate rq opts =
     (if rq = NotAnArray \<or> entries rq = [] then Some ''Requests must be a non-empty array''
      else if list_ex (\<lambda>c. falsy (cUrl c) \<or> falsy (cMethod c)) (entries rq)
        then Some ''Each request must have at least a url and method''
      else if \<not> isInteger (oRateLimit opts) \<or> notPositive (oRateLimit opts)
        then Some ''rateLimit must be a positive integer''
      else if oUnit opts \<notin> set [''hour'', ''minute'', ''second'']
        then Some ''unit must be one of: hour, minute, second''
      else None)"

text \<open>The INSERT of the job row, with \<open>Date.now()\<close> as \<open>startedAt\<close>.\<close>

definition insertJob :: "string \<Rightarrow> int \<Rightarrow> jsNumber \<Rightarrow> string \<Rightarrow> store \<Rightarrow> store" where
  "insertJob jid t rl unit db =
     db\<lparr>jobs := jobs db @
        [\<lparr>jobId = jid, startedAt = t, jstatus = Processing,
          rateLimit = (case rl of Finite x \<Rightarrow> \<lfloor>x\<rfloor> | NonFinite \<Rightarrow> 0),
          rateUnit = unit, lastProcessedIndex = - 1\<rparr>]\<rparr>"

text \<open>The INSERT of one request row; \<open>id\<close> is the next value of the AUTOINCREMENT
  sequence.\<close>

definition insertRequest :: "string \<Rightarrow> requestConfig \<Rightarrow> store \<Rightarrow> store" where
  "insertRequest jid c db =
     db\<lparr>requests := requests db @
        [\<lparr>rid = nextId db, rjobId = jid, url = cUrl c, httpMethod = cMethod c, headers = cHeaders c,
          body = cBody c, status = None, responseData = None, error = None, processedAt = None\<rparr>],
        nextId := Suc (nextId db)\<rparr>"

fun insertRequests :: "world \<Rightarrow> string \<Rightarrow> requestConfig list \<Rightarrow> engine \<Rightarrow> unit result \<times> engine" where
  "insertRequests w jid [] s = (Returned (), s)"
| "insertRequests w jid (c # cs) s =
     (case storageWrite w s (insertRequest jid c) of
        (Returned u, s') \<Rightarrow> insertRequests w jid cs s'
      | (Raised e, s') \<Rightarrow> (Raised e, s')
      | (Crashed, s') \<Rightarrow> (Crashed, s'))"

text \<open>
  Lines 158 to 212: \<open>BEGIN TRANSACTION\<close>, the body, \<open>COMMIT\<close>, and \<open>ROLLBACK\<close> in the
  \<open>catch\<close>, which throws the error again. The three transaction statements are taken to
  succeed. A rollback restores the tables; so does a crash before the commit.
\<close>

definition transaction :: "engine \<Rightarrow> (engine \<Rightarrow> unit result \<times> engine) \<Rightarrow> unit result \<times> engine" where
  "transaction s f =
     (case f s of
        (Returned u, s') \<Rightarrow> (Returned u, s')
      | (Raised e, s') \<Rightarrow> (Raised e, s'\<lparr>storage := storage s\<rparr>)
      | (Crashed, s') \<Rightarrow> (Crashed, s'\<lparr>storage := storage s\<rparr>))"

record scheduleResult =
  rJobId :: string
  resuming :: "bool option"

text \<open>\<open>schedule\<close>, lines 121 to 220. \<open>None\<close> for the options is the omitted argument.\<close>

definition schedule ::
  "world \<Rightarrow> engine \<Rightarrow> string \<Rightarrow> requestsArg \<Rightarrow> rateLimitOptions option \<Rightarrow> scheduleResult result \<times> engine" where
  "schedule w s jid rq optArg =
     andThen (initialize w s)
       (\<lambda>u s1.
          let opts = (case optArg of None \<Rightarrow> defaultOptions | Some opts \<Rightarrow> opts) in
          case validate rq opts of
            Some msg \<Rightarrow> (Raised (Error msg), s1)
          | None \<Rightarrow>
              andThen (storageRead w s1 (\<lambda>db. map_option lastProcessedIndex (find (\<lambda>j. jobId j = jid) (jobs db))))
                (\<lambda>existingJob s2.
                   if existingJob \<noteq> None then (Returned \<lparr>rJobId = jid, resuming = Some True\<rparr>, s2)
                   else
                     andThen
                       (transaction s2
                          (\<lambda>s3. andThen (storageWrite w s3 (insertJob jid (clock s3) (oRateLimit opts) (oUnit opts)))
                                  (\<lambda>u s4. insertRequests w jid (entries rq) s4)))
                       (\<lambda>u s5.
                          andThen (if \<not> processing s5 then resumeProcessing w s5 else (Returned (), s5))
                            (\<lambda>u s6. (Returned \<lparr>rJobId = jid, resuming = None\<rparr>, s6)))))"

section \<open>Numbers\<close>

text \<open>
  The numbers of the language are IEEE 754 binary64 values: finite values with a
  significand of 53 bits and an exponent from -1022 to 1023 (with the subnormal values
  below), two zeros, two infinities and NaN. \<open>Num x\<close> is the finite value \<open>x\<close>; \<open>Num 0\<close> is
  the positive zero.
\<close>

datatype double = Num real | NegZero | PosInf | NegInf | NaN

text \<open>The exponent of a positive real: the \<open>e\<close> with \<open>2 ^ e \<le> x < 2 ^ (e + 1)\<close>.\<close>

function expo :: "real \<Rightarrow> int" where
  "expo x = (if x \<le> 0 then 0 else if 2 \<le> x then expo (x / 2) + 1 else if x < 1 then expo (2 * x) - 1 else 0)"
  by pat_completeness auto
termination
proof (relation "measure (\<lambda>x. nat (\<lfloor>x\<rfloor> + 2 * \<lceil>1 / x\<rceil>))")
  show "wf (measure (\<lambda>x. nat (\<lfloor>x\<rfloor> + 2 * \<lceil>1 / x\<rceil>)))" by simp
next
  fix x :: real assume a: "\<not> x \<le> 0" "2 \<le> x"
  then have c: "\<lceil>1 / (x / 2)\<rceil> = 1" "\<lceil>1 / x\<rceil> = 1" by (simp_all add: ceiling_eq_iff)
  from a have "\<lfloor>x / 2\<rfloor> < \<lfloor>x\<rfloor>" "0 < \<lfloor>x\<rfloor>" by linarith+
  with c have "\<lfloor>x / 2\<rfloor> + 2 * \<lceil>1 / (x / 2)\<rceil> < \<lfloor>x\<rfloor> + 2 * \<lceil>1 / x\<rceil>"
    "0 < \<lfloor>x\<rfloor> + 2 * \<lceil>1 / x\<rceil>" by linarith+
  then show "(x / 2, x) \<in> measure (\<lambda>x. nat (\<lfloor>x\<rfloor> + 2 * \<lceil>1 / x\<rceil>))"
    unfolding in_measure zless_nat_conj by (intro conjI)
next
  fix x :: real assume a: "\<not> x \<le> 0" "\<not> 2 \<le> x" "x < 1"
  have f: "\<lfloor>x\<rfloor> = 0" using a by (simp add: floor_eq_iff)
  have "\<lfloor>2 * x\<rfloor> + 2 * \<lceil>1 / (2 * x)\<rceil> < \<lfloor>x\<rfloor> + 2 * \<lceil>1 / x\<rceil> \<and> 0 < \<lfloor>x\<rfloor> + 2 * \<lceil>1 / x\<rceil>"
  proof (cases "x < 1 / 2")
    case True
    with a have f2: "\<lfloor>2 * x\<rfloor> = 0" by (simp add: floor_eq_iff)
    from True a have "1 / (2 * x) \<le> 1 / x - 1" by (simp add: field_simps)
    then have "\<lceil>1 / (2 * x)\<rceil> \<le> \<lceil>1 / x - 1\<rceil>" by (rule ceiling_mono)
    then have "\<lceil>1 / (2 * x)\<rceil> < \<lceil>1 / x\<rceil>" by simp
    moreover from a have "0 < \<lceil>1 / (2 * x)\<rceil>" by simp
    ultimately show ?thesis using f f2 by linarith
  next
    case False
    with a have f2: "\<lfloor>2 * x\<rfloor> = 1" by (simp add: floor_eq_iff)
    from False a have "\<lceil>1 / (2 * x)\<rceil> = 1" by (simp add: ceiling_eq_iff field_simps)
    moreover from False a have "\<lceil>1 / x\<rceil> = 2" by (simp add: ceiling_eq_iff field_simps)
    ultimately show ?thesis using f f2 by linarith
  qed
  then show "(2 * x, x) \<in> measure (\<lambda>x. nat (\<lfloor>x\<rfloor> + 2 * \<lceil>1 / x\<rceil>))"
    unfolding in_measure zless_nat_conj by (intro conjI) simp_all
qed

declare expo.simps [simp del]

definition pow2 :: "int \<Rightarrow> real" where
  "pow2 e = (if 0 \<le> e then 2 ^ nat e else 1 / 2 ^ nat (- e))"

text \<open>The integer nearest to \<open>q\<close>, the even one of the two when \<open>q\<close> is halfway.\<close>

definition halfEven :: "int \<Rightarrow> real \<Rightarrow> int" where
  "halfEven f d = (if d < 1 / 2 then f else if 1 / 2 < d then f + 1 else if even f then f else f + 1)"

definition nearestEven :: "real \<Rightarrow> int" where
  "nearestEven q = halfEven \<lfloor>q\<rfloor> (q - real_of_int \<lfloor>q\<rfloor>)"

text \<open>The distance between neighbouring values at the magnitude \<open>a\<close>: the exponent of \<open>a\<close>,
  and -1022 for the subnormal values, less the 52 bits of the fraction.\<close>

definition quantum :: "real \<Rightarrow> real" where
  "quantum a = pow2 (max (expo a) (- 1022) - 52)"

definition nearest :: "real \<Rightarrow> real \<Rightarrow> real" where
  "nearest a u = real_of_int (nearestEven (a / u)) * u"

text \<open>A magnitude that was rounded, with its sign: from \<open>2 ^ 1024\<close> on it is infinite.\<close>

definition pack :: "bool \<Rightarrow> real \<Rightarrow> double" where
  "pack neg m =
     (if 1024 \<le> expo m then (if neg then NegInf else PosInf)
      else if m = 0 then (if neg then NegZero else Num 0)
      else Num (if neg then - m else m))"

text \<open>Rounding to nearest, ties to even: the value of an operation whose exact result
  is \<open>x\<close>.\<close>

definition round64 :: "real \<Rightarrow> double" where
  "round64 x = (if x = 0 then Num 0 else pack (x < 0) (nearest \<bar>x\<bar> (quantum \<bar>x\<bar>)))"

definition negative :: "double \<Rightarrow> bool" where
  "negative a = (case a of Num x \<Rightarrow> x < 0 | NegZero \<Rightarrow> True | PosInf \<Rightarrow> False | NegInf \<Rightarrow> True | NaN \<Rightarrow> False)"

definition finite_value :: "double \<Rightarrow> real option" where
  "finite_value a = (case a of Num x \<Rightarrow> Some x | NegZero \<Rightarrow> Some 0 | PosInf \<Rightarrow> None | NegInf \<Rightarrow> None | NaN \<Rightarrow> None)"

text \<open>\<open>a + b\<close>. A sum that is exactly zero is the positive zero, unless both terms are the
  negative zero; the sum of the two infinities is NaN.\<close>

definition dadd :: "double \<Rightarrow> double \<Rightarrow> double" where
  "dadd a b =
     (if a = NaN \<or> b = NaN then NaN
      else case (finite_value a, finite_value b) of
        (Some x, Some y) \<Rightarrow>
          if x + y = 0 then (if a = NegZero \<and> b = NegZero then NegZero else Num 0) else round64 (x + y)
      | (Some x, None) \<Rightarrow> b
      | (None, Some y) \<Rightarrow> a
      | (None, None) \<Rightarrow> if a = b then a else NaN)"

definition dneg :: "double \<Rightarrow> double" where
  "dneg a =
     (case a of Num x \<Rightarrow> if x = 0 then NegZero else Num (- x) | NegZero \<Rightarrow> Num 0
      | PosInf \<Rightarrow> NegInf | NegInf \<Rightarrow> PosInf | NaN \<Rightarrow> NaN)"

text \<open>\<open>a - b\<close>.\<close>

definition dsub :: "double \<Rightarrow> double \<Rightarrow> double" where
  "dsub a b = dadd a (dneg b)"

text \<open>\<open>a / b\<close>. A finite value that is not zero, divided by a zero, is infinite; a finite
  value divided by an infinity is a zero; the signs follow the signs of the operands;
  zero by zero and infinity by infinity are NaN.\<close>

definition ddiv :: "double \<Rightarrow> double \<Rightarrow> double" where
  "ddiv a b =
     (if a = NaN \<or> b = NaN then NaN
      else case (finite_value a, finite_value b) of
        (Some x, Some y) \<Rightarrow>
          if y = 0 then (if x = 0 then NaN else if negative a \<noteq> negative b then NegInf else PosInf)
          else if x = 0 then (if negative a \<noteq> negative b then NegZero else Num 0)
          else round64 (x / y)
      | (Some x, None) \<Rightarrow> if negative a \<noteq> negative b then NegZero else Num 0
      | (None, Some y) \<Rightarrow> if negative a \<noteq> negative b then NegInf else PosInf
      | (None, None) \<Rightarrow> NaN)"

text \<open>An integer (a time in milliseconds, a count of rows) as a number.\<close>

definition ofInt :: "int \<Rightarrow> double" where
  "ofInt i = round64 (real_of_int i)"

section \<open>status\<close>

record resultRow =
  resUrl :: "string option"
  resMethod :: "string option"
  resStatus :: "int option"
  resResponseData :: "json option"
  resError :: "string option"
  resProcessedAt :: "int option"

record progress =
  completed :: nat
  total :: nat
  pStartedAt :: int
  estimatedCompletion :: "double option"

datatype jobStatus = NotFound | InProgress progress | Completed "resultRow list"

text \<open>
  The aggregate query of lines 232 to 244. \<open>jobId\<close> is the primary key, so there is at
  most one group. A job without request rows still has one joined row (of NULLs):
  \<open>COUNT(*)\<close> is 1 and the other count 0.
\<close>

definition jobRow :: "string \<Rightarrow> store \<Rightarrow> (job \<times> nat \<times> nat) option" where
  "jobRow jid db =
     (case find (\<lambda>j. jobId j = jid) (jobs db) of
        None \<Rightarrow> None
      | Some j \<Rightarrow>
          (let rows = filter (\<lambda>r. rjobId r = jid) (requests db) in
           Some (j, length (filter (\<lambda>r. status r \<noteq> None \<or> error r \<noteq> None) rows),
                 if rows = [] then 1 else length rows)))"

text \<open>\<open>SELECT url, method, status, responseData, error, processedAt FROM requests
  WHERE jobId = ? ORDER BY id\<close>, and the \<open>map\<close> of lines 271 to 276.\<close>

definition resultRows :: "string \<Rightarrow> store \<Rightarrow> resultRow list" where
  "resultRows jid db =
     map (\<lambda>r. \<lparr>resUrl = url r, resMethod = httpMethod r, resStatus = status r,
               resResponseData = responseData r, resError = error r, resProcessedAt = processedAt r\<rparr>)
       (sort_key rid (filter (\<lambda>r. rjobId r = jid) (requests db)))"

text \<open>
  \<open>estimateCompletion\<close>, lines 437 to 448: \<open>completed === 0\<close> gives \<open>null\<close>; else
  \<open>elapsed = Date.now() - job.startedAt\<close>, \<open>rate = completed / elapsed\<close>,
  \<open>remaining = job.total - completed\<close> and the result \<open>Date.now() + remaining / rate\<close>, each
  operation rounded. With no time elapsed the rate is \<open>Infinity\<close> and the quotient a
  zero.
\<close>

definition estimateCompletion :: "int \<Rightarrow> int \<Rightarrow> nat \<Rightarrow> nat \<Rightarrow> double option" where
  "estimateCompletion now started tot done =
     (if done = 0 then None
      else
        (let elapsed = dsub (ofInt now) (ofInt started);
             rate = ddiv (ofInt (int done)) elapsed;
             remaining = dsub (ofInt (int tot)) (ofInt (int done))
         in Some (dadd (ofInt now) (ddiv remaining rate))))"

text \<open>\<open>status\<close>, lines 222 to 295.\<close>

definition status_of :: "world \<Rightarrow> engine \<Rightarrow> string \<Rightarrow> jobStatus result \<times> engine" where
  "status_of w s jid =
     andThen (initialize w s)
       (\<lambda>u s1. andThen (storageRead w s1 (jobRow jid))
          (\<lambda>job s2.
             case job of
               None \<Rightarrow> (Returned NotFound, s2)
             | Some (j, done, tot) \<Rightarrow>
                 if jstatus j = Complete
                 then andThen (storageRead w s2 (resultRows jid)) (\<lambda>rs s3. (Returned (Completed rs), s3))
                 else (Returned (InProgress \<lparr>completed = done, total = tot, pStartedAt = startedAt j,
                          estimatedCompletion = estimateCompletion (clock s2) (startedAt j) tot done\<rparr>), s2)))"

section \<open>The constructor\<close>

text \<open>
  Lines 59 to 74: a new instance over the durable state. When \<open>getAlarm\<close> returns a
  truthy time the instance resumes processing.
\<close>

definition construct :: "world \<Rightarrow> store \<Rightarrow> int \<Rightarrow> nat \<Rightarrow> nat list \<Rightarrow> unit result \<times> engine" where
  "construct w db now n lg =
     andThen (storageRead w \<lparr>storage = db, processing = False, lastCheckpoint = now, currentJobId = None,
                clock = now, ops = n, dispatched = lg\<rparr> alarm)
       (\<lambda>a s1. if (case a of None \<Rightarrow> False | Some t \<Rightarrow> t \<noteq> 0) then resumeProcessing w s1
                else (Returned (), s1))"

text \<open>A restart of the process: the durable state stays, the instance is new.\<close>

definition restart :: "world \<Rightarrow> engine \<Rightarrow> unit result \<times> engine" where
  "restart w s = construct w (storage s) (clock s) (ops s) (dispatched s)"

definition emptyStore :: store where
  "emptyStore = \<lparr>jobs = [], requests = [], nextId = 1, alarm = None\<rparr>"

section \<open>Invariants of the durable state\<close>

text \<open>Every request of a complete job is resolved.\<close>

definition completeResolved :: "store \<Rightarrow> bool" where
  "completeResolved db \<longleftrightarrow>
     (\<forall>j\<in>set (jobs db). jstatus j = Complete \<longrightarrow>
        (\<forall>x\<in>set (requests db). rjobId x = jobId j \<longrightarrow> \<not> pending x))"

lemma distinct_map_insort_key:
  "distinct (map f (insort_key f x xs)) = (f x \<notin> f ` set xs \<and> distinct (map f xs))"
  by (induction xs) (auto simp: set_insort_key)

lemma distinct_map_sort_key: "distinct (map f (sort_key f xs)) = distinct (map f xs)"
  by (induction xs) (simp_all add: distinct_map_insort_key)

lemma pendingRequests_set:
  "set (pendingRequests jid db) = {r \<in> set (requests db). rjobId r = jid \<and> pending r}"
  by (auto simp: pendingRequests_def pending_def)

lemma pendingRequests_distinct:
  "distinct (map rid (requests db)) \<Longrightarrow> distinct (map rid (pendingRequests jid db))"
  by (simp add: pendingRequests_def distinct_map_sort_key distinct_map_filter)

lemma rowAdv_map_rid: "list_all2 rowAdv xs ys \<Longrightarrow> map rid ys = map rid xs"
  by (induction rule: list_all2_induct) (auto dest: rowAdv_rid)

lemma completeResolved_kept:
  assumes c: "completeResolved db"
    and rows: "list_all2 rowAdv (requests db) (requests db')"
    and js: "list_all2 jobKept (jobs db) (jobs db')"
  shows "completeResolved db'"
  unfolding completeResolved_def
proof (intro ballI impI)
  fix j' x' assume j': "j' \<in> set (jobs db')" "jstatus j' = Complete"
    and x': "x' \<in> set (requests db')" "rjobId x' = jobId j'"
  from list_all2_set2 [OF js j'(1)] obtain j where j: "j \<in> set (jobs db)" "jobKept j j'" by blast
  from list_all2_set2 [OF rows x'(1)] obtain x where x: "x \<in> set (requests db)" "rowAdv x x'" by blast
  from j j'(2) have "jstatus j = Complete" "jobId j = jobId j'" by (auto simp: jobKept_def jobAdv_def)
  with c j(1) x(1) x' rowAdv_rid [OF x(2)] have "\<not> pending x" by (auto simp: completeResolved_def)
  with rowAdv_resolved [OF x(2)] show "\<not> pending x'" by simp
qed

lemma jobKept_jobAdv: "list_all2 jobKept js js' \<Longrightarrow> list_all2 jobAdv js js'"
  by (erule list_all2_mono) (simp add: jobKept_def)

lemma jobAdv_completeJob: "list_all2 jobAdv (jobs db) (jobs (completeJob jid db))"
  by (simp add: completeJob_def list_all2_map_same jobAdv_def)

text \<open>What one round of the loop does to the durable state and to the instance.\<close>

lemma drainRound_effect:
  assumes run: "drainRound w s = (res, s')"
    and dist: "distinct (map rid (requests (storage s)))"
  shows "list_all2 rowAdv (requests (storage s)) (requests (storage s'))
       \<and> list_all2 jobAdv (jobs (storage s)) (jobs (storage s'))
       \<and> nextId (storage s') = nextId (storage s)
       \<and> (completeResolved (storage s) \<longrightarrow> completeResolved (storage s'))
       \<and> processing s' = processing s \<and> lastCheckpoint s' = lastCheckpoint s
       \<and> ops s < ops s'
       \<and> (\<forall>e. res = Raised e \<longrightarrow> storageW w (ops s' - 1) = Fail (message e) \<and> e = StorageFault (message e))"
  using run
proof (cases rule: drainRound_cases)
  case idle
  from storageRead_frame [OF idle(1)] idle(2) show ?thesis by (simp add: list.rel_refl)
next
  case (noRead u)
  from storageRead_frame [OF noRead(1)] storageRead_event [OF noRead(1)] noRead(2)
  show ?thesis by (auto simp: list.rel_refl)
next
  case (noList j s1 u)
  from storageRead_frame [OF noList(1)] storageRead_frame [OF noList(2)] storageRead_event [OF noList(2)] noList(3)
  show ?thesis by (auto simp: list.rel_refl)
next
  case (stopped j s1 rs s2 u)
  note f1 = storageRead_frame [OF stopped(1)] and f2 = storageRead_frame [OF stopped(2)]
  from f1 f2 have st: "storage s2 = storage s" by simp
  from storageRead_Returned [OF stopped(2)] f1 have rs: "rs = pendingRequests (jobId j) (storage s)" by simp
  have d: "distinct (map rid rs)" unfolding rs by (rule pendingRequests_distinct [OF dist])
  have p: "\<forall>x\<in>set (requests (storage s2)). rid x \<in> rid ` set rs \<longrightarrow> pending x"
  proof (intro ballI impI)
    fix x assume x: "x \<in> set (requests (storage s2))" "rid x \<in> rid ` set rs"
    then obtain r where r: "r \<in> set rs" "rid r = rid x" by auto
    with rs have "r \<in> set (requests (storage s))" "pending r" by (auto simp: pendingRequests_set)
    with dist x st r(2) have "x = r" by (auto simp: distinct_map dest: inj_onD)
    with \<open>pending r\<close> show "pending x" by simp
  qed
  note rows = processRequests_rows [OF stopped(3) d p] and fr = processRequests_frame [OF stopped(3)]
  have adv: "list_all2 rowAdv (requests (storage s)) (requests (storage s'))"
    using list_all2_mono [OF conjunct1 [OF rows]] settledIn_rowAdv st by auto
  from fr st have kept: "list_all2 jobKept (jobs (storage s)) (jobs (storage s'))" by simp
  from stopped(4) fr f1 f2 have "ops s < ops s'"
    "\<forall>e. res = Raised e \<longrightarrow> storageW w (ops s' - 1) = Fail (message e) \<and> e = StorageFault (message e)"
    by auto
  with adv kept jobKept_jobAdv [OF kept] completeResolved_kept [OF _ adv kept] fr st f1 f2
  show ?thesis by auto
next
  case (run j s1 rs s2 s3 u)
  note f1 = storageRead_frame [OF run(1)] and f2 = storageRead_frame [OF run(2)]
  from f1 f2 have st: "storage s2 = storage s" by simp
  from storageRead_Returned [OF run(2)] f1 have rs: "rs = pendingRequests (jobId j) (storage s)" by simp
  have d: "distinct (map rid rs)" unfolding rs by (rule pendingRequests_distinct [OF dist])
  have p: "\<forall>x\<in>set (requests (storage s2)). rid x \<in> rid ` set rs \<longrightarrow> pending x"
  proof (intro ballI impI)
    fix x assume x: "x \<in> set (requests (storage s2))" "rid x \<in> rid ` set rs"
    then obtain r where r: "r \<in> set rs" "rid r = rid x" by auto
    with rs have "r \<in> set (requests (storage s))" "pending r" by (auto simp: pendingRequests_set)
    with dist x st r(2) have "x = r" by (auto simp: distinct_map dest: inj_onD)
    with \<open>pending r\<close> show "pending x" by simp
  qed
  note rows = processRequests_rows [OF run(3) d p] and fr = processRequests_frame [OF run(3)]
  have adv3: "list_all2 rowAdv (requests (storage s)) (requests (storage s3))"
    using list_all2_mono [OF conjunct1 [OF rows]] settledIn_rowAdv st by auto
  from fr st have kept3: "list_all2 jobKept (jobs (storage s)) (jobs (storage s3))" by simp
  note ev = storageWrite_event [OF run(4)]
  from ev have req': "requests (storage s') = requests (storage s3)"
    by (cases u) (auto simp: completeJob_def)
  from ev have "jobs (storage s') = jobs (storage s3) \<or> jobs (storage s') = jobs (completeJob (jobId j) (storage s3))"
    by (cases u) auto
  then have adv': "list_all2 jobAdv (jobs (storage s3)) (jobs (storage s'))"
    using jobAdv_completeJob [of "storage s3" "jobId j"] by (auto simp: list.rel_refl)
  have jobs: "list_all2 jobAdv (jobs (storage s)) (jobs (storage s'))"
    using list_all2_trans [of jobAdv jobAdv jobAdv, OF _ jobKept_jobAdv [OF kept3] adv'] jobAdv_trans by blast
  from ev have nid: "nextId (storage s') = nextId (storage s3)"
    by (cases u) (auto simp: completeJob_def)
  from ev have mem: "processing s' = processing s3" "lastCheckpoint s' = lastCheckpoint s3" "ops s3 < ops s'"
    by (cases u; auto)+
  have fail: "\<forall>e. res = Raised e \<longrightarrow> storageW w (ops s' - 1) = Fail (message e) \<and> e = StorageFault (message e)"
    using ev run(5) by (cases u) auto
  have cr: "completeResolved (storage s')" if c: "completeResolved (storage s)"
  proof -
    from completeResolved_kept [OF c adv3 kept3] have c3: "completeResolved (storage s3)" .
    show ?thesis
    proof (cases u)
      case (Returned a)
      with ev have s': "storage s' = completeJob (jobId j) (storage s3)" by simp
      show ?thesis unfolding completeResolved_def
      proof (intro ballI impI)
        fix j' x' assume j': "j' \<in> set (jobs (storage s'))" "jstatus j' = Complete"
          and x': "x' \<in> set (requests (storage s'))" "rjobId x' = jobId j'"
        from x' s' have x3: "x' \<in> set (requests (storage s3))" by (simp add: completeJob_def)
        show "\<not> pending x'"
        proof (cases "jobId j' = jobId j")
          case True
          from list_all2_set2 [OF conjunct1 [OF rows] x3] st obtain x
            where x: "x \<in> set (requests (storage s))" "settledIn (rid ` set rs) x x'" by auto
          note ra = settledIn_rowAdv [OF x(2)]
          show ?thesis
          proof (cases "pending x")
            case True
            with x(1) rowAdv_rid [OF ra] x'(2) \<open>jobId j' = jobId j\<close> have "x \<in> set rs"
              by (simp add: rs pendingRequests_set)
            with rowAdv_rid [OF ra] have "rid x' \<in> rid ` set rs" by force
            with rows x3 show ?thesis by simp
          next
            case False
            with rowAdv_resolved [OF ra] show ?thesis by simp
          qed
        next
          case False
          from j'(1) s' obtain j3 where j3: "j3 \<in> set (jobs (storage s3))"
            "j' = (if jobId j3 = jobId j then j3\<lparr>jstatus := Complete\<rparr> else j3)"
            by (auto simp: completeJob_def)
          with False have "j' = j3" by (auto split: if_splits)
          with c3 j3(1) j'(2) x3 x'(2) show ?thesis by (auto simp: completeResolved_def)
        qed
      qed
    next
      case (Raised e)
      with ev c3 show ?thesis by simp
    next
      case Crashed
      with ev c3 show ?thesis by simp
    qed
  qed
  from adv3 req' jobs nid fr st mem f1 f2 fail cr show ?thesis by auto
qed

text \<open>What the loop may do between two states of an instance.\<close>

definition advanced :: "engine \<Rightarrow> engine \<Rightarrow> bool" where
  "advanced s s' \<longleftrightarrow>
     list_all2 rowAdv (requests (storage s)) (requests (storage s')) \<and>
     list_all2 jobAdv (jobs (storage s)) (jobs (storage s')) \<and>
     nextId (storage s') = nextId (storage s) \<and>
     (completeResolved (storage s) \<longrightarrow> completeResolved (storage s')) \<and>
     lastCheckpoint s' = lastCheckpoint s \<and> ops s \<le> ops s'"

lemma advanced_refl: "advanced s s"
  by (simp add: advanced_def list.rel_refl)

lemma advanced_trans: "advanced a b \<Longrightarrow> advanced b c \<Longrightarrow> advanced a c"
  unfolding advanced_def
  using list_all2_trans [of rowAdv rowAdv rowAdv] list_all2_trans [of jobAdv jobAdv jobAdv]
    rowAdv_trans jobAdv_trans
  by (smt (verit, best) order_trans)

lemma advanced_distinct:
  "advanced s s' \<Longrightarrow> distinct (map rid (requests (storage s))) \<Longrightarrow> distinct (map rid (requests (storage s')))"
  by (auto simp: advanced_def dest: rowAdv_map_rid)

lemma advanced_same_storage:
  "storage s' = storage s \<Longrightarrow> lastCheckpoint s' = lastCheckpoint s \<Longrightarrow> ops s \<le> ops s' \<Longrightarrow> advanced s s'"
  by (simp add: advanced_def list.rel_refl)

lemma drainRound_advanced:
  "drainRound w s = (res, s') \<Longrightarrow> distinct (map rid (requests (storage s))) \<Longrightarrow> advanced s s'"
  by (drule (1) drainRound_effect) (simp add: advanced_def)

lemma drain_effect:
  assumes "drain w s = (res, s')" and "distinct (map rid (requests (storage s)))"
  shows "advanced s s' \<and> processing s' = processing s \<and> ops s < ops s'
       \<and> (\<forall>e. res = Raised e \<longrightarrow> storageW w (ops s' - 1) = Fail (message e) \<and> e = StorageFault (message e))
       \<and> (res = Returned () \<longrightarrow> queued (storage s') = 0)"
  using assms
proof (induction w s arbitrary: res s' rule: drain.induct)
  case (1 w s)
  obtain r1 s1 where round: "drainRound w s = (r1, s1)" by (cases "drainRound w s")
  note eff = drainRound_effect [OF round "1.prems"(2)]
  note adv = drainRound_advanced [OF round "1.prems"(2)]
  show ?case
  proof (cases r1)
    case (Returned b)
    show ?thesis
    proof (cases b)
      case True
      with Returned round "1.prems"(1) have run: "drain w s1 = (res, s')" by (simp add: drain.simps [of w s])
      from True have bt: "b = True" by simp
      from "1.IH" [OF round [symmetric] Returned bt run advanced_distinct [OF adv "1.prems"(2)]]
      have ih: "advanced s1 s'" "processing s' = processing s1" "ops s1 < ops s'"
        "\<forall>e. res = Raised e \<longrightarrow> storageW w (ops s' - 1) = Fail (message e) \<and> e = StorageFault (message e)"
        "res = Returned () \<longrightarrow> queued (storage s') = 0"
        by auto
      from advanced_trans [OF adv ih(1)] ih eff show ?thesis by auto
    next
      case False
      with Returned round "1.prems"(1) have eq: "res = Returned ()" "s' = s1" by (auto simp: drain.simps [of w s])
      from round Returned False have "storageRead w s nextQueuedJob = (Returned None, s1)"
        by (cases rule: drainRound_cases) auto
      from storageRead_Returned [OF this] storageRead_storage [OF this]
      have "nextQueuedJob (storage s1) = None" by simp
      then have "filter (\<lambda>j. jstatus j = Processing) (jobs (storage s1)) = []"
        by (auto simp: nextQueuedJob_def split: list.splits) (metis list.distinct(1) set_sort set_empty)
      then have "queued (storage s1) = 0" by (simp add: queued_def)
      with eq adv eff show ?thesis by auto
    qed
  next
    case (Raised e)
    with round "1.prems"(1) have eq: "res = Raised e" "s' = s1" by (auto simp: drain.simps [of w s])
    with adv eff Raised show ?thesis by auto
  next
    case Crashed
    with round "1.prems"(1) have eq: "res = Crashed" "s' = s1" by (auto simp: drain.simps [of w s])
    with adv eff show ?thesis by auto
  qed
qed

section \<open>The inter-request delay\<close>

text \<open>The milliseconds of a rate unit, as the specification lists them.\<close>

definition unitMilliseconds :: "string \<Rightarrow> int" where
  "unitMilliseconds u =
     (if u = ''hour'' then 3600000 else if u = ''minute'' then 60000
      else if u = ''second'' then 1000 else 0)"

text \<open>
  C8. For a positive integer rate limit and a unit among hour, minute and second, the
  delay is the ceiling of the unit's milliseconds over the rate limit: the least number
  of milliseconds \<open>d\<close> with \<open>d * rateLimit\<close> at least the unit's milliseconds. At 60 per
  minute it is exactly 1000.
\<close>

theorem calculateDelay_ceiling:
  assumes "0 < rl" and "u \<in> {''hour'', ''minute'', ''second''}"
  shows "calculateDelay rl u = \<lceil>real_of_int (unitMilliseconds u) / real_of_int rl\<rceil>
       \<and> unitMilliseconds u \<le> calculateDelay rl u * rl
       \<and> (calculateDelay rl u - 1) * rl < unitMilliseconds u
       \<and> calculateDelay 60 ''minute'' = 1000"
proof -
  let ?U = "unitMilliseconds u"
  let ?d = "\<lceil>real_of_int ?U / real_of_int rl\<rceil>"
  from assms(2) have eq: "calculateDelay rl u = ?d"
    by (auto simp: calculateDelay_def unitMilliseconds_def)
  from assms(1) have pos: "0 < real_of_int rl" by simp
  have "real_of_int ?U / real_of_int rl \<le> real_of_int ?d" by (rule le_of_int_ceiling)
  then have "real_of_int ?U \<le> real_of_int ?d * real_of_int rl"
    using pos_divide_le_eq [OF pos] by blast
  then have "real_of_int ?U \<le> real_of_int (?d * rl)" by simp
  then have up: "?U \<le> ?d * rl" by (simp only: of_int_le_iff)
  have "real_of_int ?d - 1 < real_of_int ?U / real_of_int rl" by linarith
  then have "(real_of_int ?d - 1) * real_of_int rl < real_of_int ?U"
    using pos_less_divide_eq [OF pos] by blast
  then have "real_of_int ((?d - 1) * rl) < real_of_int ?U" by simp
  then have lo: "(?d - 1) * rl < ?U" by (simp only: of_int_less_iff)
  have "calculateDelay 60 ''minute'' = 1000" by (simp add: calculateDelay_def)
  with eq up lo show ?thesis by simp
qed

theorem calculateDelay_ceiling_witness:
  "(0::int) < 7 \<and> ''second'' \<in> {''hour'', ''minute'', ''second''}
   \<and> calculateDelay 7 ''second'' = 143 \<and> unitMilliseconds ''second'' \<le> calculateDelay 7 ''second'' * 7
   \<and> (calculateDelay 7 ''second'' - 1) * 7 < unitMilliseconds ''second''"
  using calculateDelay_ceiling [of 7 "''second''"]
  by (simp add: unitMilliseconds_def)

section \<open>resumeProcessing as a whole\<close>


lemma handlerE:
  assumes "andThen (storageWrite w s2 u0) (\<lambda>u s3. (Raised e, s3)) = (res, s')"
  shows "\<exists>u. storageWrite w s2 u0 = (u, s') \<and>
           ((u = Returned () \<and> res = Raised e) \<or> (\<exists>e'. u = Raised e' \<and> res = Raised e') \<or> (u = Crashed \<and> res = Crashed))"
  using assms by (cases rule: andThenE) auto

lemma resumeProcessing_cases:
  assumes "resumeProcessing w s = (res, s')"
  obtains (busy) "processing s" and "res = Returned ()" and "s' = s"
    | (finished) s1 u where "\<not> processing s" and "drain w (s\<lparr>processing := True\<rparr>) = (Returned (), s1)"
        and "storageWrite w (s1\<lparr>currentJobId := None, processing := False\<rparr>) deleteAlarm = (u, s')"
        and "u = Returned () \<or> u = Crashed" and "res = u"
    | (loopCrashed) "\<not> processing s" and "drain w (s\<lparr>processing := True\<rparr>) = (Crashed, s')" and "res = Crashed"
    | (loopRaised) e s1 u where "\<not> processing s" and "drain w (s\<lparr>processing := True\<rparr>) = (Raised e, s1)"
        and "storageWrite w s1 (setAlarm (clock s1 + 5000)) = (u, s')"
        and "(u = Returned () \<and> res = Raised e) \<or> (\<exists>e'. u = Raised e' \<and> res = Raised e') \<or> (u = Crashed \<and> res = Crashed)"
    | (deleteRaised) e s1 s2 u where "\<not> processing s" and "drain w (s\<lparr>processing := True\<rparr>) = (Returned (), s1)"
        and "storageWrite w (s1\<lparr>currentJobId := None, processing := False\<rparr>) deleteAlarm = (Raised e, s2)"
        and "storageWrite w s2 (setAlarm (clock s2 + 5000)) = (u, s')"
        and "(u = Returned () \<and> res = Raised e) \<or> (\<exists>e'. u = Raised e' \<and> res = Raised e') \<or> (u = Crashed \<and> res = Crashed)"
proof (cases "processing s")
  case True
  with assms have "res = Returned ()" "s' = s" by (auto simp: resumeProcessing_def)
  with True show ?thesis by (rule busy)
next
  case False
  let ?body = "andThen (drain w (s\<lparr>processing := True\<rparr>))
             (\<lambda>u s1. storageWrite w (s1\<lparr>currentJobId := None, processing := False\<rparr>) deleteAlarm)"
  from assms False
  have "tryCatch ?body
          (\<lambda>e s2. andThen (storageWrite w s2 (setAlarm (clock s2 + 5000))) (\<lambda>u s3. (Raised e, s3))) = (res, s')"
    by (simp add: resumeProcessing_def)
  then show ?thesis
  proof (cases rule: tryCatchE)
    case (caught e s2)
    from handlerE [OF caught(2)] obtain u where u: "storageWrite w s2 (setAlarm (clock s2 + 5000)) = (u, s')"
      "(u = Returned () \<and> res = Raised e) \<or> (\<exists>e'. u = Raised e' \<and> res = Raised e') \<or> (u = Crashed \<and> res = Crashed)"
      by blast
    from caught(1) show ?thesis
    proof (cases rule: andThenE)
      case (continued a s1)
      then have "drain w (s\<lparr>processing := True\<rparr>) = (Returned (), s1)" by simp
      from False this continued(2) u show ?thesis by (rule deleteRaised)
    next
      case (raised e')
      with False u show ?thesis by (intro loopRaised [of e s2 u]) auto
    qed simp
  next
    case (returned a)
    from returned(1) show ?thesis
    proof (cases rule: andThenE)
      case (continued b s1)
      then have "drain w (s\<lparr>processing := True\<rparr>) = (Returned (), s1)" by simp
      from False this continued(2) returned(2) show ?thesis by (intro finished [of s1 "Returned a"]) auto
    qed simp_all
  next
    case crashed
    from crashed(1) show ?thesis
    proof (cases rule: andThenE)
      case (continued b s1)
      then have "drain w (s\<lparr>processing := True\<rparr>) = (Returned (), s1)" by simp
      from False this continued(2) crashed(2) show ?thesis by (intro finished [of s1 Crashed]) auto
    next
      case crashed
      with False \<open>res = Crashed\<close> show ?thesis by (intro loopCrashed) auto
    qed simp
  qed
qed

lemma advanced_flag: "advanced (s\<lparr>processing := b\<rparr>) s1 \<Longrightarrow> advanced s s1"
  by (simp add: advanced_def)

lemma storageWrite_advanced:
  assumes "storageWrite w s u = (res, s')"
    and "\<And>db. requests (u db) = requests db \<and> jobs (u db) = jobs db \<and> nextId (u db) = nextId db"
  shows "advanced s s'"
proof -
  have "advanced s (s\<lparr>ops := Suc (ops s), storage := u (storage s)\<rparr>)"
    using assms(2) by (simp add: advanced_def list.rel_refl completeResolved_def)
  moreover have "advanced s (s\<lparr>ops := Suc (ops s)\<rparr>)"
    by (simp add: advanced_def list.rel_refl)
  ultimately show ?thesis using storageWrite_event [OF assms(1)] by (cases res) auto
qed

lemma resumeProcessing_advanced:
  assumes run: "resumeProcessing w s = (res, s')"
    and dist: "distinct (map rid (requests (storage s)))"
  shows "advanced s s'"
  using run
proof (cases rule: resumeProcessing_cases)
  case busy
  then show ?thesis by (simp add: advanced_refl)
next
  case (finished s1 u)
  from drain_effect [OF finished(2)] dist have a: "advanced s s1" by (auto intro: advanced_flag)
  have "advanced (s1\<lparr>currentJobId := None, processing := False\<rparr>) s'"
    by (rule storageWrite_advanced [OF finished(3)]) (simp add: deleteAlarm_def)
  then have "advanced s1 s'" by (simp add: advanced_def)
  with a show ?thesis by (rule advanced_trans)
next
  case loopCrashed
  from drain_effect [OF loopCrashed(2)] dist show ?thesis by (auto intro: advanced_flag)
next
  case (loopRaised e s1 u)
  from drain_effect [OF loopRaised(2)] dist have a: "advanced s s1" by (auto intro: advanced_flag)
  have "advanced s1 s'"
    by (rule storageWrite_advanced [OF loopRaised(3)]) (simp add: setAlarm_def)
  with a show ?thesis by (rule advanced_trans)
next
  case (deleteRaised e s1 s2 u)
  from drain_effect [OF deleteRaised(2)] dist have a: "advanced s s1" by (auto intro: advanced_flag)
  have "advanced (s1\<lparr>currentJobId := None, processing := False\<rparr>) s2"
    by (rule storageWrite_advanced [OF deleteRaised(3)]) (simp add: deleteAlarm_def)
  then have b: "advanced s1 s2" by (simp add: advanced_def)
  have c: "advanced s2 s'"
    by (rule storageWrite_advanced [OF deleteRaised(4)]) (simp add: setAlarm_def)
  from advanced_trans [OF a advanced_trans [OF b c]] show ?thesis .
qed

section \<open>Concrete worlds and states\<close>

text \<open>A server that answers 200 with a JSON object, and a storage that works, except
  that the calls listed in \<open>bad\<close> are rejected and the calls listed in \<open>dead\<close> kill the
  process.\<close>

definition jsonServer :: "string option \<Rightarrow> string option \<Rightarrow> string option \<Rightarrow> string option \<Rightarrow> fetch_result" where
  "jsonServer u m h b =
     Responded \<lparr>rstatus = 200, ok = True, contentType = Some ''application/json; charset=utf-8'',
       jsonBody = Inr (JObj [(''ok'', JBool True)]), textBody = Inr ''{\"ok\":true}''\<rparr>"

definition worldWith :: "nat list \<Rightarrow> nat list \<Rightarrow> world" where
  "worldWith bad dead =
     \<lparr>storageW = (\<lambda>k. if k \<in> set dead then Die else if k \<in> set bad then Fail ''disk full'' else Proceed),
      fetchW = jsonServer\<rparr>"

text \<open>An instance in the middle of job \<open>j1\<close>: the first request is resolved, the second
  is pending.\<close>

definition midJob :: engine where
  "midJob =
     \<lparr>storage =
        \<lparr>jobs = [\<lparr>jobId = ''j1'', startedAt = 0, jstatus = Processing, rateLimit = 2,
                   rateUnit = ''second'', lastProcessedIndex = 0\<rparr>],
         requests =
           [\<lparr>rid = 1, rjobId = ''j1'', url = Some ''https://x/a'', httpMethod = Some ''GET'',
              headers = None, body = None, status = Some 200, responseData = None, error = None,
              processedAt = Some 0\<rparr>,
            \<lparr>rid = 2, rjobId = ''j1'', url = Some ''https://x/b'', httpMethod = Some ''GET'',
              headers = None, body = None, status = None, responseData = None, error = None,
              processedAt = None\<rparr>],
         nextId = 3, alarm = Some 5500\<rparr>,
      processing = False, lastCheckpoint = 600, currentJobId = None, clock = 600, ops = 0,
      dispatched = []\<rparr>"

section \<open>What is recorded for a request\<close>

text \<open>The instance after request \<open>r\<close> was dispatched and one UPDATE changed the rows with
  its id by \<open>f\<close>.\<close>

definition recorded :: "engine \<Rightarrow> request \<Rightarrow> (request \<Rightarrow> request) \<Rightarrow> engine" where
  "recorded s r f =
     s\<lparr>dispatched := dispatched s @ [rid r], ops := Suc (ops s),
       storage := (storage s)\<lparr>requests := map (\<lambda>x. if rid x = rid r then f x else x) (requests (storage s))\<rparr>\<rparr>"

text \<open>
  C6, as the claim states it, fails: a success response with a JSON content type whose
  body decodes to the number 0 is recorded with the status 200 and no response data.
\<close>

theorem settle_falsy_body_counterexample:
  "\<not> (\<forall>w r s resp v.
        storageW w (ops s) = Proceed \<longrightarrow>
        fetchW w (url r) (httpMethod r) (headers r) (body r) = Responded resp \<longrightarrow>
        ok resp \<longrightarrow> declaresJson resp \<longrightarrow> jsonBody resp = Inr v \<longrightarrow>
        settle w r s =
          (Returned (), recorded s r (\<lambda>x. x\<lparr>status := Some (rstatus resp), responseData := Some v,
                                             processedAt := Some (clock s)\<rparr>)))"
proof
  let ?resp = "\<lparr>rstatus = 200, ok = True, contentType = Some ''application/json'',
                 jsonBody = Inr (JNum 0), textBody = Inr ''0''\<rparr>"
  let ?w = "\<lparr>storageW = (\<lambda>k. Proceed), fetchW = (\<lambda>u m h b. Responded ?resp)\<rparr>"
  let ?r = "hd (tl (requests (storage midJob)))"
  assume "\<forall>w r s resp v.
        storageW w (ops s) = Proceed \<longrightarrow>
        fetchW w (url r) (httpMethod r) (headers r) (body r) = Responded resp \<longrightarrow>
        ok resp \<longrightarrow> declaresJson resp \<longrightarrow> jsonBody resp = Inr v \<longrightarrow>
        settle w r s =
          (Returned (), recorded s r (\<lambda>x. x\<lparr>status := Some (rstatus resp), responseData := Some v,
                                             processedAt := Some (clock s)\<rparr>))"
  then have "settle ?w ?r midJob =
          (Returned (), recorded midJob ?r (\<lambda>x. x\<lparr>status := Some (rstatus ?resp), responseData := Some (JNum 0),
                                             processedAt := Some (clock midJob)\<rparr>))"
    by (simp add: declaresJson_def)
  then have "map responseData (requests (storage (snd (settle ?w ?r midJob)))) = [None, Some (JNum 0)]"
    by (simp add: recorded_def midJob_def)
  moreover have "map responseData (requests (storage (snd (settle ?w ?r midJob)))) = [None, None]"
    by (simp add: settle_def attempt_def tryCatch_def storageWrite_def decodeBody_def declaresJson_def
        storedData_def recordStatus_def midJob_def)
  ultimately show False by simp
qed

text \<open>
  C6, amended. When the UPDATE goes through: a success response with a JSON content type
  is recorded with its status and its decoded body, if that is truthy, and with its
  status and no response data, if the decoded body is falsy (\<open>null\<close>, \<open>false\<close>, 0 or the
  empty string); a success response without a JSON content type with its status and its
  text, if that is not empty, and with its status and no response data, if the text is
  empty; any other response with its status and no response data; a request for which
  \<open>fetch\<close> or the decoding throws with the message as error, the status staying as it was.
\<close>

theorem settle_records:
  assumes "storageW w (ops s) = Proceed"
  shows "(fetchW w (url r) (httpMethod r) (headers r) (body r) = Responded resp \<longrightarrow> ok resp \<longrightarrow>
            declaresJson resp \<longrightarrow> jsonBody resp = Inr v \<longrightarrow> truthy v \<longrightarrow>
          settle w r s =
            (Returned (), recorded s r (\<lambda>x. x\<lparr>status := Some (rstatus resp), responseData := Some v,
                                               processedAt := Some (clock s)\<rparr>)))
       \<and> (fetchW w (url r) (httpMethod r) (headers r) (body r) = Responded resp \<longrightarrow> ok resp \<longrightarrow>
            declaresJson resp \<longrightarrow> jsonBody resp = Inr v \<longrightarrow> \<not> truthy v \<longrightarrow>
          settle w r s =
            (Returned (), recorded s r (\<lambda>x. x\<lparr>status := Some (rstatus resp), responseData := None,
                                               processedAt := Some (clock s)\<rparr>)))
       \<and> (fetchW w (url r) (httpMethod r) (headers r) (body r) = Responded resp \<longrightarrow> ok resp \<longrightarrow>
            \<not> declaresJson resp \<longrightarrow> textBody resp = Inr [] \<longrightarrow>
          settle w r s =
            (Returned (), recorded s r (\<lambda>x. x\<lparr>status := Some (rstatus resp), responseData := None,
                                               processedAt := Some (clock s)\<rparr>)))
       \<and> (fetchW w (url r) (httpMethod r) (headers r) (body r) = Responded resp \<longrightarrow> ok resp \<longrightarrow>
            \<not> declaresJson resp \<longrightarrow> textBody resp = Inr t \<longrightarrow> t \<noteq> [] \<longrightarrow>
          settle w r s =
            (Returned (), recorded s r (\<lambda>x. x\<lparr>status := Some (rstatus resp), responseData := Some (JStr t),
                                               processedAt := Some (clock s)\<rparr>)))
       \<and> (fetchW w (url r) (httpMethod r) (headers r) (body r) = Responded resp \<longrightarrow> \<not> ok resp \<longrightarrow>
          settle w r s =
            (Returned (), recorded s r (\<lambda>x. x\<lparr>status := Some (rstatus resp), responseData := None,
                                               processedAt := Some (clock s)\<rparr>)))
       \<and> (fetchW w (url r) (httpMethod r) (headers r) (body r) = FetchThrew m \<longrightarrow>
          settle w r s =
            (Returned (), recorded s r (\<lambda>x. x\<lparr>error := Some m, processedAt := Some (clock s)\<rparr>)))
       \<and> (fetchW w (url r) (httpMethod r) (headers r) (body r) = Responded resp \<longrightarrow> ok resp \<longrightarrow>
            (declaresJson resp \<and> jsonBody resp = Inl m \<or> \<not> declaresJson resp \<and> textBody resp = Inl m) \<longrightarrow>
          settle w r s =
            (Returned (), recorded s r (\<lambda>x. x\<lparr>error := Some m, processedAt := Some (clock s)\<rparr>)))"
  using assms
  by (auto simp: settle_def attempt_def tryCatch_def storageWrite_def decodeBody_def storedData_def
        recordStatus_def recordError_def recorded_def declaresJson_def Let_def)

theorem settle_records_witness:
  "storageW (worldWith [] []) (ops midJob) = Proceed
   \<and> requests (storage (snd (settle (worldWith [] []) (hd (tl (requests (storage midJob)))) midJob)))
       = [hd (requests (storage midJob)),
          (hd (tl (requests (storage midJob))))
            \<lparr>status := Some 200, responseData := Some (JObj [(''ok'', JBool True)]), processedAt := Some 600\<rparr>]"
proof -
  let ?w = "worldWith [] []"
  let ?r = "hd (tl (requests (storage midJob)))"
  let ?resp = "\<lparr>rstatus = 200, ok = True, contentType = Some ''application/json; charset=utf-8'',
       jsonBody = Inr (JObj [(''ok'', JBool True)]), textBody = Inr ''{\"ok\":true}''\<rparr>"
  have p: "storageW ?w (ops midJob) = Proceed" by (simp add: worldWith_def)
  have f: "fetchW ?w (url ?r) (httpMethod ?r) (headers ?r) (body ?r) = Responded ?resp"
    by (simp add: worldWith_def jsonServer_def)
  have j: "declaresJson ?resp" by (simp add: declaresJson_def)
  from settle_records [OF p, of ?r ?resp "JObj [(''ok'', JBool True)]"] f j
  have "settle ?w ?r midJob =
            (Returned (), recorded midJob ?r (\<lambda>x. x\<lparr>status := Some 200, responseData := Some (JObj [(''ok'', JBool True)]),
                                               processedAt := Some (clock midJob)\<rparr>))"
    by simp
  with p show ?thesis by (simp add: recorded_def midJob_def)
qed

section \<open>Well-formed durable states\<close>

text \<open>
  Request ids are unique and below the AUTOINCREMENT counter, job ids are unique, no
  request has both a status and an error, every request of a complete job is resolved,
  every job has a request, and every rate limit is positive.
\<close>

definition wellFormed :: "store \<Rightarrow> bool" where
  "wellFormed db \<longleftrightarrow>
     distinct (map rid (requests db)) \<and>
     (\<forall>x\<in>set (requests db). rid x < nextId db) \<and>
     distinct (map jobId (jobs db)) \<and>
     (\<forall>x\<in>set (requests db). status x = None \<or> error x = None) \<and>
     completeResolved db \<and>
     (\<forall>j\<in>set (jobs db). \<exists>x\<in>set (requests db). rjobId x = jobId j) \<and>
     (\<forall>j\<in>set (jobs db). 0 < rateLimit j)"

lemma jobAdv_map_jobId: "list_all2 jobAdv xs ys \<Longrightarrow> map jobId ys = map jobId xs"
  by (induction rule: list_all2_induct) (auto simp: jobAdv_def)

lemma rowAdv_one_outcome: "rowAdv x x' \<Longrightarrow> status x = None \<or> error x = None \<Longrightarrow> status x' = None \<or> error x' = None"
  by (auto simp: rowAdv_def pending_def)

lemma wellFormed_advanced:
  assumes wf: "wellFormed (storage s)" and adv: "advanced s s'"
  shows "wellFormed (storage s')"
proof -
  from adv have rows: "list_all2 rowAdv (requests (storage s)) (requests (storage s'))"
    and js: "list_all2 jobAdv (jobs (storage s)) (jobs (storage s'))"
    and nid: "nextId (storage s') = nextId (storage s)"
    and cr: "completeResolved (storage s) \<longrightarrow> completeResolved (storage s')"
    by (simp_all add: advanced_def)
  note ids = rowAdv_map_rid [OF rows] and jids = jobAdv_map_jobId [OF js]
  have a: "distinct (map rid (requests (storage s')))" using wf ids by (simp add: wellFormed_def)
  have b: "\<forall>x\<in>set (requests (storage s')). rid x < nextId (storage s')"
  proof
    fix x' assume "x' \<in> set (requests (storage s'))"
    from list_all2_set2 [OF rows this] obtain x where "x \<in> set (requests (storage s))" "rowAdv x x'" by blast
    with wf nid rowAdv_rid [OF this(2)] show "rid x' < nextId (storage s')" by (auto simp: wellFormed_def)
  qed
  have c: "distinct (map jobId (jobs (storage s')))" using wf jids by (simp add: wellFormed_def)
  have d: "\<forall>x\<in>set (requests (storage s')). status x = None \<or> error x = None"
  proof
    fix x' assume "x' \<in> set (requests (storage s'))"
    from list_all2_set2 [OF rows this] obtain x where x: "x \<in> set (requests (storage s))" "rowAdv x x'" by blast
    with wf have "status x = None \<or> error x = None" by (auto simp: wellFormed_def)
    from rowAdv_one_outcome [OF x(2) this] show "status x' = None \<or> error x' = None" .
  qed
  have e: "completeResolved (storage s')" using wf cr by (simp add: wellFormed_def)
  have f: "\<forall>j\<in>set (jobs (storage s')). \<exists>x\<in>set (requests (storage s')). rjobId x = jobId j"
  proof
    fix j' assume "j' \<in> set (jobs (storage s'))"
    from list_all2_set2 [OF js this] obtain j where j: "j \<in> set (jobs (storage s))" "jobAdv j j'" by blast
    with wf obtain x where x: "x \<in> set (requests (storage s))" "rjobId x = jobId j" by (auto simp: wellFormed_def)
    from list_all2_set1 [OF rows x(1)] obtain x' where "x' \<in> set (requests (storage s'))" "rowAdv x x'" by blast
    with x j(2) rowAdv_rid [OF this(2)] show "\<exists>x\<in>set (requests (storage s')). rjobId x = jobId j'"
      by (auto simp: jobAdv_def)
  qed
  have g: "\<forall>j\<in>set (jobs (storage s')). 0 < rateLimit j"
  proof
    fix j' assume "j' \<in> set (jobs (storage s'))"
    from list_all2_set2 [OF js this] obtain j where j: "j \<in> set (jobs (storage s))" "jobAdv j j'" by blast
    with wf show "0 < rateLimit j'" by (auto simp: wellFormed_def jobAdv_def)
  qed
  from a b c d e f g show ?thesis unfolding wellFormed_def by blast
qed

subsection \<open>The rows that an admission inserts\<close>

fun newRows :: "string \<Rightarrow> nat \<Rightarrow> requestConfig list \<Rightarrow> request list" where
  "newRows jid n [] = []"
| "newRows jid n (c # cs) =
     \<lparr>rid = n, rjobId = jid, url = cUrl c, httpMethod = cMethod c, headers = cHeaders c,
       body = cBody c, status = None, responseData = None, error = None, processedAt = None\<rparr>
     # newRows jid (Suc n) cs"

definition admitted :: "string \<Rightarrow> int \<Rightarrow> jsNumber \<Rightarrow> string \<Rightarrow> requestConfig list \<Rightarrow> store \<Rightarrow> store" where
  "admitted jid t rl unit cs db =
     db\<lparr>jobs := jobs (insertJob jid t rl unit db),
        requests := requests db @ newRows jid (nextId db) cs,
        nextId := nextId db + length cs\<rparr>"

lemma newRows_props:
  "distinct (map rid (newRows jid n cs))
   \<and> (\<forall>x\<in>set (newRows jid n cs). n \<le> rid x \<and> rid x < n + length cs \<and> rjobId x = jid \<and> pending x)"
proof (induction cs arbitrary: n)
  case Nil
  then show ?case by simp
next
  case (Cons c cs)
  from Cons [of "Suc n"] show ?case by (force simp: pending_def)
qed

lemma storageWrite_mem:
  "storageWrite w s u = (res, s') \<Longrightarrow>
     processing s' = processing s \<and> dispatched s' = dispatched s \<and> clock s' = clock s
     \<and> lastCheckpoint s' = lastCheckpoint s \<and> currentJobId s' = currentJobId s \<and> ops s' = Suc (ops s)"
  by (auto simp: storageWrite_def Let_def split: event.splits)

lemma storageRead_mem:
  "storageRead w s q = (res, s') \<Longrightarrow>
     processing s' = processing s \<and> dispatched s' = dispatched s \<and> clock s' = clock s
     \<and> lastCheckpoint s' = lastCheckpoint s \<and> currentJobId s' = currentJobId s \<and> ops s' = Suc (ops s)
     \<and> storage s' = storage s"
  by (auto simp: storageRead_def Let_def split: event.splits)

lemma insertRequests_effect:
  assumes "insertRequests w jid cs s = (res, s')"
  shows "processing s' = processing s \<and> dispatched s' = dispatched s \<and> clock s' = clock s
       \<and> lastCheckpoint s' = lastCheckpoint s \<and> ops s \<le> ops s'
       \<and> (res = Returned () \<longrightarrow>
            storage s' = (storage s)\<lparr>requests := requests (storage s) @ newRows jid (nextId (storage s)) cs,
                                      nextId := nextId (storage s) + length cs\<rparr>)
       \<and> (\<forall>e. res = Raised e \<longrightarrow> e = StorageFault (message e))"
  using assms
proof (induction cs arbitrary: s)
  case Nil
  then show ?case by auto
next
  case (Cons c cs)
  obtain r1 s1 where w1: "storageWrite w s (insertRequest jid c) = (r1, s1)"
    by (cases "storageWrite w s (insertRequest jid c)")
  note m = storageWrite_mem [OF w1] and ev = storageWrite_event [OF w1]
  show ?case
  proof (cases r1)
    case (Returned u)
    with Cons.prems w1 have run: "insertRequests w jid cs s1 = (res, s')" by simp
    from ev Returned have st: "storage s1 = insertRequest jid c (storage s)" by simp
    from Cons.IH [OF run] m st show ?thesis by (auto simp: insertRequest_def)
  next
    case (Raised e)
    with Cons.prems w1 ev m show ?thesis by auto
  next
    case Crashed
    with Cons.prems w1 m show ?thesis by auto
  qed
qed

lemma initialize_effect:
  assumes "initialize w s = (res, s')"
  shows "storage s' = storage s \<and> processing s' = processing s \<and> dispatched s' = dispatched s
       \<and> clock s' = clock s \<and> lastCheckpoint s' = lastCheckpoint s \<and> ops s < ops s'
       \<and> (\<forall>e. res = Raised e \<longrightarrow> e = StorageFault (message e))
       \<and> (res = Returned () \<longleftrightarrow> (\<forall>k<3. storageW w (ops s + k) = Proceed))
       \<and> (res = Returned () \<longrightarrow> ops s' = ops s + 3)"
  using assms
  by (auto simp: initialize_def andThen_def storageWrite_def storageRead_def Let_def less_Suc_eq numeral_3_eq_3
      split: event.splits prod.splits result.splits)

lemma newRows_nonempty: "cs \<noteq> [] \<Longrightarrow> \<exists>x\<in>set (newRows jid n cs). rjobId x = jid"
  by (cases cs) auto

lemma wellFormed_admitted:
  assumes wf: "wellFormed db" and fresh: "jid \<notin> jobId ` set (jobs db)" and ne: "cs \<noteq> []"
    and rl: "isInteger rl" "\<not> notPositive rl"
  shows "wellFormed (admitted jid t rl unit cs db)"
proof -
  note np = newRows_props [of jid "nextId db" cs]
  from rl have pos: "0 < (case rl of Finite x \<Rightarrow> \<lfloor>x\<rfloor> | NonFinite \<Rightarrow> 0)"
    by (cases rl) (auto simp: not_le)
  have a: "distinct (map rid (requests db @ newRows jid (nextId db) cs))"
    using wf np by (fastforce simp: wellFormed_def)
  have b: "\<forall>x\<in>set (requests db @ newRows jid (nextId db) cs). rid x < nextId db + length cs"
    using wf np by (fastforce simp: wellFormed_def)
  have c: "distinct (map jobId (jobs (insertJob jid t rl unit db)))"
    using wf fresh by (auto simp: wellFormed_def insertJob_def)
  have d: "\<forall>x\<in>set (requests db @ newRows jid (nextId db) cs). status x = None \<or> error x = None"
    using wf np by (auto simp: wellFormed_def pending_def)
  have e: "completeResolved (admitted jid t rl unit cs db)"
    using wf np fresh by (auto simp: wellFormed_def completeResolved_def admitted_def insertJob_def)
  have f: "\<forall>j\<in>set (jobs (insertJob jid t rl unit db)).
             \<exists>x\<in>set (requests db @ newRows jid (nextId db) cs). rjobId x = jobId j"
    using wf newRows_nonempty [OF ne, of jid "nextId db"] by (auto simp: wellFormed_def insertJob_def)
  have g: "\<forall>j\<in>set (jobs (insertJob jid t rl unit db)). 0 < rateLimit j"
    using wf pos by (auto simp: wellFormed_def insertJob_def)
  from a b c d e f g show ?thesis unfolding wellFormed_def by (simp add: admitted_def)
qed

lemma validate_None:
  "validate rq opts = None \<Longrightarrow>
     entries rq \<noteq> [] \<and> isInteger (oRateLimit opts) \<and> \<not> notPositive (oRateLimit opts)
     \<and> oUnit opts \<in> {''hour'', ''minute'', ''second''}
     \<and> (\<forall>c\<in>set (entries rq). \<not> falsy (cUrl c) \<and> \<not> falsy (cMethod c))"
  by (auto simp: validate_def list_ex_iff split: if_splits)

lemma admission_effect:
  assumes "transaction s2 (\<lambda>s3. andThen (storageWrite w s3 (insertJob jid (clock s3) rl unit))
                                  (\<lambda>u s4. insertRequests w jid cs s4)) = (u, s5)"
  shows "processing s5 = processing s2 \<and> dispatched s5 = dispatched s2 \<and> clock s5 = clock s2
       \<and> lastCheckpoint s5 = lastCheckpoint s2 \<and> ops s2 < ops s5
       \<and> (u = Returned () \<longrightarrow> storage s5 = admitted jid (clock s2) rl unit cs (storage s2))
       \<and> (u \<noteq> Returned () \<longrightarrow> storage s5 = storage s2)
       \<and> (\<forall>e. u = Raised e \<longrightarrow> e = StorageFault (message e))"
proof -
  obtain r0 s0 where body: "andThen (storageWrite w s2 (insertJob jid (clock s2) rl unit))
                                  (\<lambda>u s4. insertRequests w jid cs s4) = (r0, s0)"
    by (cases "andThen (storageWrite w s2 (insertJob jid (clock s2) rl unit))
                                  (\<lambda>u s4. insertRequests w jid cs s4)")
  have st: "processing s0 = processing s2 \<and> dispatched s0 = dispatched s2 \<and> clock s0 = clock s2
       \<and> lastCheckpoint s0 = lastCheckpoint s2 \<and> ops s2 < ops s0
       \<and> (r0 = Returned () \<longrightarrow> storage s0 = admitted jid (clock s2) rl unit cs (storage s2))
       \<and> (\<forall>e. r0 = Raised e \<longrightarrow> e = StorageFault (message e))"
    using body
  proof (cases rule: andThenE)
    case (continued a s1)
    from storageWrite_event [OF continued(1)] have "storage s1 = insertJob jid (clock s2) rl unit (storage s2)"
      by simp
    with storageWrite_mem [OF continued(1)] insertRequests_effect [OF continued(2)]
    show ?thesis by (auto simp: admitted_def insertJob_def)
  next
    case (raised e)
    with storageWrite_mem [OF raised(1)] storageWrite_event [OF raised(1)] show ?thesis by auto
  next
    case crashed
    with storageWrite_mem [OF crashed(1)] show ?thesis by auto
  qed
  from assms body have "(u, s5) = (case r0 of Returned a \<Rightarrow> (Returned a, s0)
      | Raised e \<Rightarrow> (Raised e, s0\<lparr>storage := storage s2\<rparr>) | Crashed \<Rightarrow> (Crashed, s0\<lparr>storage := storage s2\<rparr>))"
    by (simp add: transaction_def split: result.splits)
  with st show ?thesis by (cases r0) auto
qed

text \<open>The ways through \<open>schedule\<close>.\<close>

lemma schedule_cases:
  assumes "schedule w s jid rq optArg = (res, s')"
  obtains (initFailed) u where "initialize w s = (u, s')" and "u \<noteq> Returned ()"
      and "(\<exists>e. u = Raised e \<and> res = Raised e) \<or> (u = Crashed \<and> res = Crashed)"
    | (invalid) msg where "initialize w s = (Returned (), s')"
      and "validate rq (case optArg of None \<Rightarrow> defaultOptions | Some opts \<Rightarrow> opts) = Some msg"
      and "res = Raised (Error msg)"
    | (lookupFailed) s1 u where "initialize w s = (Returned (), s1)"
      and "validate rq (case optArg of None \<Rightarrow> defaultOptions | Some opts \<Rightarrow> opts) = None"
      and "storageRead w s1 (\<lambda>db. map_option lastProcessedIndex (find (\<lambda>j. jobId j = jid) (jobs db))) = (u, s')"
      and "(\<exists>e. u = Raised e \<and> res = Raised e) \<or> (u = Crashed \<and> res = Crashed)"
    | (existing) s1 i where "initialize w s = (Returned (), s1)"
      and "validate rq (case optArg of None \<Rightarrow> defaultOptions | Some opts \<Rightarrow> opts) = None"
      and "storageRead w s1 (\<lambda>db. map_option lastProcessedIndex (find (\<lambda>j. jobId j = jid) (jobs db))) = (Returned (Some i), s')"
      and "res = Returned \<lparr>rJobId = jid, resuming = Some True\<rparr>"
    | (admissionFailed) s1 s2 u where "initialize w s = (Returned (), s1)"
      and "validate rq (case optArg of None \<Rightarrow> defaultOptions | Some opts \<Rightarrow> opts) = None"
      and "storageRead w s1 (\<lambda>db. map_option lastProcessedIndex (find (\<lambda>j. jobId j = jid) (jobs db))) = (Returned None, s2)"
      and "transaction s2
             (\<lambda>s3. andThen (storageWrite w s3 (insertJob jid (clock s3)
                               (oRateLimit (case optArg of None \<Rightarrow> defaultOptions | Some opts \<Rightarrow> opts))
                               (oUnit (case optArg of None \<Rightarrow> defaultOptions | Some opts \<Rightarrow> opts))))
                     (\<lambda>u s4. insertRequests w jid (entries rq) s4)) = (u, s')"
      and "(\<exists>e. u = Raised e \<and> res = Raised e) \<or> (u = Crashed \<and> res = Crashed)"
    | (admitted) s1 s2 s5 u where "initialize w s = (Returned (), s1)"
      and "validate rq (case optArg of None \<Rightarrow> defaultOptions | Some opts \<Rightarrow> opts) = None"
      and "storageRead w s1 (\<lambda>db. map_option lastProcessedIndex (find (\<lambda>j. jobId j = jid) (jobs db))) = (Returned None, s2)"
      and "transaction s2
             (\<lambda>s3. andThen (storageWrite w s3 (insertJob jid (clock s3)
                               (oRateLimit (case optArg of None \<Rightarrow> defaultOptions | Some opts \<Rightarrow> opts))
                               (oUnit (case optArg of None \<Rightarrow> defaultOptions | Some opts \<Rightarrow> opts))))
                     (\<lambda>u s4. insertRequests w jid (entries rq) s4)) = (Returned (), s5)"
      and "(if \<not> processing s5 then resumeProcessing w s5 else (Returned (), s5)) = (u, s')"
      and "(u = Returned () \<and> res = Returned \<lparr>rJobId = jid, resuming = None\<rparr>)
           \<or> (\<exists>e. u = Raised e \<and> res = Raised e) \<or> (u = Crashed \<and> res = Crashed)"
proof -
  let ?opts = "case optArg of None \<Rightarrow> defaultOptions | Some opts \<Rightarrow> opts"
  from assms show ?thesis unfolding schedule_def
  proof (cases rule: andThenE)
    case (continued a s1)
    then have init: "initialize w s = (Returned (), s1)" by simp
    show ?thesis
    proof (cases "validate rq ?opts")
      case (Some msg)
      with continued(2) have "res = Raised (Error msg)" "s' = s1" by (auto simp: Let_def)
      with init Some show ?thesis by (intro invalid [of msg]) auto
    next
      case None
      with continued(2)
      have "andThen (storageRead w s1 (\<lambda>db. map_option lastProcessedIndex (find (\<lambda>j. jobId j = jid) (jobs db))))
                (\<lambda>existingJob s2.
                   if existingJob \<noteq> None then (Returned \<lparr>rJobId = jid, resuming = Some True\<rparr>, s2)
                   else
                     andThen
                       (transaction s2
                          (\<lambda>s3. andThen (storageWrite w s3 (insertJob jid (clock s3) (oRateLimit ?opts) (oUnit ?opts)))
                                  (\<lambda>u s4. insertRequests w jid (entries rq) s4)))
                       (\<lambda>u s5.
                          andThen (if \<not> processing s5 then resumeProcessing w s5 else (Returned (), s5))
                            (\<lambda>u s6. (Returned \<lparr>rJobId = jid, resuming = None\<rparr>, s6)))) = (res, s')"
        by (simp add: Let_def)
      then show ?thesis
      proof (cases rule: andThenE)
        case (continued ex s2)
        note look = continued(1)
        show ?thesis
        proof (cases ex)
          case (Some i)
          with continued(2) have "res = Returned \<lparr>rJobId = jid, resuming = Some True\<rparr>" "s' = s2" by auto
          with init None look Some show ?thesis by (intro existing [of s1 i]) auto
        next
          case None2: None
          with continued(2)
          have "andThen
                       (transaction s2
                          (\<lambda>s3. andThen (storageWrite w s3 (insertJob jid (clock s3) (oRateLimit ?opts) (oUnit ?opts)))
                                  (\<lambda>u s4. insertRequests w jid (entries rq) s4)))
                       (\<lambda>u s5.
                          andThen (if \<not> processing s5 then resumeProcessing w s5 else (Returned (), s5))
                            (\<lambda>u s6. (Returned \<lparr>rJobId = jid, resuming = None\<rparr>, s6))) = (res, s')"
            by simp
          then show ?thesis
          proof (cases rule: andThenE)
            case (continued a5 s5)
            then have tx: "transaction s2
                          (\<lambda>s3. andThen (storageWrite w s3 (insertJob jid (clock s3) (oRateLimit ?opts) (oUnit ?opts)))
                                  (\<lambda>u s4. insertRequests w jid (entries rq) s4)) = (Returned (), s5)" by simp
            from continued(2) show ?thesis
            proof (cases rule: andThenE)
              case (continued a6 s6)
              with init None look None2 tx show ?thesis by (intro admitted [of s1 s2 s5 "Returned ()"]) auto
            next
              case (raised e)
              with init None look None2 tx show ?thesis by (intro admitted [of s1 s2 s5 "Raised e"]) auto
            next
              case crashed
              with init None look None2 tx show ?thesis by (intro admitted [of s1 s2 s5 Crashed]) auto
            qed
          next
            case (raised e)
            with init None look None2 show ?thesis by (intro admissionFailed [of s1 s2 "Raised e"]) auto
          next
            case crashed
            with init None look None2 show ?thesis by (intro admissionFailed [of s1 s2 Crashed]) auto
          qed
        qed
      next
        case (raised e)
        with init None show ?thesis by (intro lookupFailed [of s1 "Raised e"]) auto
      next
        case crashed
        with init None show ?thesis by (intro lookupFailed [of s1 Crashed]) auto
      qed
    qed
  next
    case (raised e)
    then show ?thesis by (intro initFailed [of "Raised e"]) auto
  next
    case crashed
    then show ?thesis by (intro initFailed [of Crashed]) auto
  qed
qed

text \<open>Whatever \<open>resumeProcessing\<close> throws is a rejection of a storage call: what
  \<open>fetch\<close> throws is caught.\<close>

lemma drainRound_Raised:
  assumes "drainRound w s = (Raised e, s')"
  shows "e = StorageFault (message e)"
  using assms
proof (cases rule: drainRound_cases)
  case (noRead u)
  with storageRead_event [OF noRead(1)] show ?thesis by auto
next
  case (noList j s1 u)
  with storageRead_event [OF noList(2)] show ?thesis by auto
next
  case (stopped j s1 rs s2 u)
  with processRequests_frame [OF stopped(3)] show ?thesis by auto
next
  case (run j s1 rs s2 s3 u)
  with storageWrite_event [OF run(4)] show ?thesis by auto
qed simp

lemma drain_Raised:
  "drain w s = (Raised e, s') \<Longrightarrow> e = StorageFault (message e)"
proof (induction w s rule: drain.induct)
  case (1 w s)
  obtain r1 s1 where round: "drainRound w s = (r1, s1)" by (cases "drainRound w s")
  show ?case
  proof (cases r1)
    case (Returned b)
    show ?thesis
    proof (cases b)
      case True
      with Returned round "1.prems" have run: "drain w s1 = (Raised e, s')" by (simp add: drain.simps [of w s])
      from True have bt: "b = True" by simp
      from "1.IH" [OF round [symmetric] Returned bt run] show ?thesis .
    next
      case False
      with Returned round "1.prems" show ?thesis by (simp add: drain.simps [of w s])
    qed
  next
    case (Raised e')
    with round "1.prems" have "e' = e" "s1 = s'" by (auto simp: drain.simps [of w s])
    with round Raised drainRound_Raised show ?thesis by blast
  next
    case Crashed
    with round "1.prems" show ?thesis by (simp add: drain.simps [of w s])
  qed
qed

lemma resumeProcessing_Raised:
  assumes "resumeProcessing w s = (Raised e, s')"
  shows "e = StorageFault (message e)"
  using assms
proof (cases rule: resumeProcessing_cases)
  case (loopRaised e0 s1 u)
  with drain_Raised [OF loopRaised(2)] storageWrite_event [OF loopRaised(3)] show ?thesis by auto
next
  case (deleteRaised e0 s1 s2 u)
  with storageWrite_event [OF deleteRaised(3)] storageWrite_event [OF deleteRaised(4)] show ?thesis by auto
qed auto

section \<open>Admission\<close>

text \<open>The arguments that the specification rejects: the requests are not an array or
  are empty, an entry lacks its url or its method (the field is missing or empty), the
  rate limit is not a positive integer, or the unit is not one of the three.\<close>

definition lacks :: "string option \<Rightarrow> bool" where
  "lacks v \<longleftrightarrow> v = None \<or> v = Some []"

definition badRequests :: "requestsArg \<Rightarrow> bool" where
  "badRequests rq \<longleftrightarrow>
     rq = NotAnArray \<or> entries rq = [] \<or> (\<exists>c\<in>set (entries rq). lacks (cUrl c) \<or> lacks (cMethod c))"

definition invalidArguments :: "requestsArg \<Rightarrow> rateLimitOptions \<Rightarrow> bool" where
  "invalidArguments rq opts \<longleftrightarrow>
     badRequests rq \<or>
     \<not> (\<exists>n::int. 0 < n \<and> oRateLimit opts = Finite (real_of_int n)) \<or>
     oUnit opts \<notin> {''hour'', ''minute'', ''second''}"

definition validationMessages :: "string set" where
  "validationMessages =
     {''Requests must be a non-empty array'', ''Each request must have at least a url and method'',
      ''rateLimit must be a positive integer'', ''unit must be one of: hour, minute, second''}"

lemma positive_integer:
  "(isInteger rl \<and> \<not> notPositive rl) = (\<exists>n::int. 0 < n \<and> rl = Finite (real_of_int n))"
proof (cases rl)
  case (Finite x)
  show ?thesis
  proof
    assume a: "isInteger rl \<and> \<not> notPositive rl"
    with Finite have "x = real_of_int \<lfloor>x\<rfloor>" "0 < x" by auto
    then have "0 < \<lfloor>x\<rfloor>" by linarith
    with Finite \<open>x = real_of_int \<lfloor>x\<rfloor>\<close> show "\<exists>n::int. 0 < n \<and> rl = Finite (real_of_int n)" by blast
  next
    assume "\<exists>n::int. 0 < n \<and> rl = Finite (real_of_int n)"
    then show "isInteger rl \<and> \<not> notPositive rl" by auto
  qed
next
  case NonFinite
  then show ?thesis by simp
qed

lemma falsy_lacks: "falsy v = lacks v"
  by (cases v) (auto simp: falsy_def lacks_def)

lemma validate_invalid: "(validate rq opts \<noteq> None) = invalidArguments rq opts"
  using positive_integer [of "oRateLimit opts"]
  by (auto simp: validate_def invalidArguments_def badRequests_def falsy_lacks list_ex_iff)

lemma validate_message: "validate rq opts = Some msg \<Longrightarrow> msg \<in> validationMessages"
  by (auto simp: validate_def validationMessages_def split: if_splits)

text \<open>
  C4. Once \<open>initialize\<close> has gone through, \<open>schedule\<close> throws an error of its own exactly
  when the arguments are invalid: the requests are not an array or are empty, an entry
  lacks its url or its method, the rate limit is not a positive integer, or the unit is
  not hour, minute or second. The error then carries one of the four validation messages
  and both tables are as before the call. With the options omitted the defaults
  (5000 per hour) are used, and they are valid.
\<close>

theorem schedule_validation:
  assumes init: "initialize w s = (Returned (), s1)"
  shows "((\<exists>msg s'. schedule w s jid rq optArg = (Raised (Error msg), s'))
            \<longleftrightarrow> invalidArguments rq (case optArg of None \<Rightarrow> defaultOptions | Some opts \<Rightarrow> opts))
       \<and> (invalidArguments rq (case optArg of None \<Rightarrow> defaultOptions | Some opts \<Rightarrow> opts) \<longrightarrow>
            (\<exists>msg\<in>validationMessages. fst (schedule w s jid rq optArg) = Raised (Error msg))
            \<and> storage (snd (schedule w s jid rq optArg)) = storage s)
       \<and> defaultOptions = \<lparr>oRateLimit = Finite 5000, oUnit = ''hour''\<rparr>
       \<and> (invalidArguments rq defaultOptions \<longleftrightarrow> badRequests rq)"
proof -
  let ?opts = "case optArg of None \<Rightarrow> defaultOptions | Some opts \<Rightarrow> opts"
  have thrown: "schedule w s jid rq optArg = (Raised (Error msg), s1)" if "validate rq ?opts = Some msg" for msg
    using that init by (simp add: schedule_def andThen_def Let_def)
  have onlyIf: "invalidArguments rq ?opts" if run: "schedule w s jid rq optArg = (Raised (Error msg), s')" for msg s'
    using run
  proof (cases rule: schedule_cases)
    case (initFailed u)
    with init show ?thesis by simp
  next
    case (invalid msg)
    with validate_invalid [of rq ?opts] show ?thesis by simp
  next
    case (lookupFailed s1 u)
    with storageRead_event [OF lookupFailed(3)] show ?thesis by auto
  next
    case (existing s1 i)
    then show ?thesis by simp
  next
    case (admissionFailed s1 s2 u)
    with admission_effect [OF admissionFailed(4)] show ?thesis by auto
  next
    case (admitted s1 s2 s5 u)
    from admitted(6) obtain e where e: "u = Raised e" "e = Error msg" by auto
    with admitted(5) have "resumeProcessing w s5 = (Raised e, s')" by (auto split: if_splits)
    from resumeProcessing_Raised [OF this] e show ?thesis by simp
  qed
  have a: "(\<exists>msg s'. schedule w s jid rq optArg = (Raised (Error msg), s')) \<longleftrightarrow> invalidArguments rq ?opts"
    using thrown onlyIf validate_invalid [of rq ?opts] by blast
  have b: "(\<exists>msg\<in>validationMessages. fst (schedule w s jid rq optArg) = Raised (Error msg))
            \<and> storage (snd (schedule w s jid rq optArg)) = storage s" if "invalidArguments rq ?opts"
  proof -
    from that validate_invalid [of rq ?opts] obtain msg where m: "validate rq ?opts = Some msg" by auto
    from thrown [OF m] validate_message [OF m] initialize_effect [OF init] show ?thesis by auto
  qed
  have c: "invalidArguments rq defaultOptions \<longleftrightarrow> badRequests rq"
  proof -
    have "\<exists>n::int. 0 < n \<and> Finite 5000 = Finite (real_of_int n)" by (rule exI [of _ 5000]) simp
    then show ?thesis by (simp add: invalidArguments_def defaultOptions_def)
  qed
  from a b c show ?thesis by (simp add: defaultOptions_def)
qed

theorem schedule_validation_witness:
  "initialize (worldWith [] []) midJob = (Returned (), snd (initialize (worldWith [] []) midJob))
   \<and> invalidArguments (Array []) defaultOptions
   \<and> invalidArguments (Array [\<lparr>cUrl = Some ''https://x/a'', cMethod = Some ''GET'', cHeaders = None, cBody = None\<rparr>])
        \<lparr>oRateLimit = Finite (- 1), oUnit = ''minute''\<rparr>
   \<and> fst (schedule (worldWith [] []) midJob ''j2'' (Array []) None)
        = Raised (Error ''Requests must be a non-empty array'')
   \<and> storage (snd (schedule (worldWith [] []) midJob ''j2'' (Array []) None)) = storage midJob
   \<and> storage (snd (schedule (worldWith [] []) midJob ''j2''
        (Array [\<lparr>cUrl = Some ''https://x/a'', cMethod = Some ''GET'', cHeaders = None, cBody = None\<rparr>])
        (Some \<lparr>oRateLimit = Finite (- 1), oUnit = ''minute''\<rparr>))) = storage midJob"
proof -
  let ?w = "worldWith [] []"
  let ?c = "\<lparr>cUrl = Some ''https://x/a'', cMethod = Some ''GET'', cHeaders = None, cBody = None\<rparr>"
  let ?o = "\<lparr>oRateLimit = Finite (- 1), oUnit = ''minute''\<rparr>"
  have "fst (initialize ?w midJob) = Returned ()" by code_simp
  then have init: "initialize ?w midJob = (Returned (), snd (initialize ?w midJob))"
    by (metis prod.collapse)
  have i1: "invalidArguments (Array []) defaultOptions"
    by (simp add: invalidArguments_def badRequests_def)
  have i2: "invalidArguments (Array [?c]) ?o"
    by (simp add: invalidArguments_def)
  have m: "fst (schedule ?w midJob ''j2'' (Array []) None) = Raised (Error ''Requests must be a non-empty array'')"
    by code_simp
  from schedule_validation [OF init, of "''j2''" "Array []" None]
    schedule_validation [OF init, of "''j2''" "Array [?c]" "Some ?o"] init i1 i2 m
  show ?thesis by simp
qed


lemma find_None_jobId: "(find (\<lambda>j. jobId j = jid) js = None) = (jid \<notin> jobId ` set js)"
  by (auto simp: find_None_iff)

lemma if_resume_cases:
  assumes "(if \<not> processing s5 then resumeProcessing w s5 else (Returned (), s5)) = (u, s')"
  obtains (resumed) "\<not> processing s5" and "resumeProcessing w s5 = (u, s')"
    | (skipped) "processing s5" and "u = Returned ()" and "s' = s5"
  using assms by (auto split: if_splits)

lemma schedule_Returned_exists:
  assumes run: "schedule w s jid rq optArg = (Returned r, s')"
    and dist: "wellFormed (storage s)"
  shows "jid \<in> jobId ` set (jobs (storage s'))"
  using run
proof (cases rule: schedule_cases)
  case (existing s1 i)
  from storageRead_Returned [OF existing(3)] storageRead_storage [OF existing(3)] initialize_effect [OF existing(1)]
  have "Some i = map_option lastProcessedIndex (find (\<lambda>j. jobId j = jid) (jobs (storage s')))" by simp
  then have "find (\<lambda>j. jobId j = jid) (jobs (storage s')) \<noteq> None"
    by (cases "find (\<lambda>j. jobId j = jid) (jobs (storage s'))") simp_all
  then show ?thesis by (simp add: find_None_jobId)
next
  case (admitted s1 s2 s5 u)
  let ?opts = "case optArg of None \<Rightarrow> defaultOptions | Some opts \<Rightarrow> opts"
  from admission_effect [OF admitted(4)]
  have st5: "storage s5 = admitted jid (clock s2) (oRateLimit ?opts) (oUnit ?opts) (entries rq) (storage s2)"
    by simp
  then have in5: "jid \<in> jobId ` set (jobs (storage s5))" by (simp add: admitted_def insertJob_def)
  from storageRead_Returned [OF admitted(3)] storageRead_storage [OF admitted(3)] initialize_effect [OF admitted(1)]
  have s2: "storage s2 = storage s" and fresh: "jid \<notin> jobId ` set (jobs (storage s))"
    by (auto simp: find_None_jobId)
  from validate_None [OF admitted(2)] wellFormed_admitted [OF dist fresh, of "entries rq" "oRateLimit ?opts"] st5 s2
  have wf5: "wellFormed (storage s5)" by simp
  from admitted(5) show ?thesis
  proof (cases rule: if_resume_cases)
    case resumed
    from wf5 have "distinct (map rid (requests (storage s5)))" by (simp add: wellFormed_def)
    from resumeProcessing_advanced [OF resumed(2) this]
    have "list_all2 jobAdv (jobs (storage s5)) (jobs (storage s'))" by (simp add: advanced_def)
    from jobAdv_map_jobId [OF this]
    have "set (map jobId (jobs (storage s'))) = set (map jobId (jobs (storage s5)))" by simp
    with in5 show ?thesis by simp
  next
    case skipped
    with in5 show ?thesis by simp
  qed
qed auto

section \<open>A second submission of the same job\<close>

text \<open>
  C2. A call of \<open>schedule\<close> with valid arguments for a job id that already has a row (or
  right after a call with the same job id returned) leaves the durable state as it is,
  whatever the storage does, so no request row is inserted a second time; what it
  returns, if it returns, is the job id with \<open>resuming: true\<close>; and it does return when the
  four storage calls that it makes go through.
\<close>

theorem schedule_existing_job:
  assumes valid: "validate rq (case optArg of None \<Rightarrow> defaultOptions | Some opts \<Rightarrow> opts) = None"
    and ex: "jid \<in> jobId ` set (jobs (storage s))
             \<or> (wellFormed (storage s0) \<and> schedule w0 s0 jid rq optArg = (Returned r0, s))"
  shows "storage (snd (schedule w s jid rq optArg)) = storage s
       \<and> (\<forall>r. fst (schedule w s jid rq optArg) = Returned r \<longrightarrow> r = \<lparr>rJobId = jid, resuming = Some True\<rparr>)
       \<and> ((\<forall>k<4. storageW w (ops s + k) = Proceed) \<longrightarrow>
            fst (schedule w s jid rq optArg) = Returned \<lparr>rJobId = jid, resuming = Some True\<rparr>)"
proof -
  from ex have job: "jid \<in> jobId ` set (jobs (storage s))"
  proof
    assume "wellFormed (storage s0) \<and> schedule w0 s0 jid rq optArg = (Returned r0, s)"
    then show ?thesis using schedule_Returned_exists [of w0 s0 jid rq optArg r0 s] by simp
  qed
  obtain res s' where run: "schedule w s jid rq optArg = (res, s')" by (cases "schedule w s jid rq optArg")
  have a: "storage s' = storage s \<and> (\<forall>r. res = Returned r \<longrightarrow> r = \<lparr>rJobId = jid, resuming = Some True\<rparr>)"
    using run
  proof (cases rule: schedule_cases)
    case (initFailed u)
    from initialize_effect [OF initFailed(1)] have "storage s' = storage s" by simp
    with initFailed(3) show ?thesis by auto
  next
    case (invalid msg)
    with valid show ?thesis by simp
  next
    case (lookupFailed s1 u)
    from initialize_effect [OF lookupFailed(1)] storageRead_storage [OF lookupFailed(3)]
    have "storage s' = storage s" by simp
    with lookupFailed(4) show ?thesis by auto
  next
    case (existing s1 i)
    from initialize_effect [OF existing(1)] storageRead_storage [OF existing(3)]
    have "storage s' = storage s" by simp
    with existing(4) show ?thesis by simp
  next
    case (admissionFailed s1 s2 u)
    from storageRead_Returned [OF admissionFailed(3)] initialize_effect [OF admissionFailed(1)] job
    show ?thesis by (simp add: find_None_jobId)
  next
    case (admitted s1 s2 s5 u)
    from storageRead_Returned [OF admitted(3)] initialize_effect [OF admitted(1)] job
    show ?thesis by (simp add: find_None_jobId)
  qed
  have b: "res = Returned \<lparr>rJobId = jid, resuming = Some True\<rparr>" if go: "\<forall>k<4. storageW w (ops s + k) = Proceed"
  proof -
    from go have go3: "\<forall>k<3. storageW w (ops s + k) = Proceed" and go4: "storageW w (ops s + 3) = Proceed"
      by simp_all
    from run show ?thesis
    proof (cases rule: schedule_cases)
      case (initFailed u)
      from initialize_effect [OF initFailed(1)] have "(u = Returned ()) = (\<forall>k<3. storageW w (ops s + k) = Proceed)"
        by simp
      with go3 initFailed(2) show ?thesis by simp
    next
      case (invalid msg)
      with valid show ?thesis by simp
    next
      case (lookupFailed s1 u)
      from initialize_effect [OF lookupFailed(1)] have "ops s1 = ops s + 3" by simp
      with storageRead_event [OF lookupFailed(3)] lookupFailed(4) go4 show ?thesis by auto
    next
      case (existing s1 i)
      then show ?thesis by simp
    next
      case (admissionFailed s1 s2 u)
      from storageRead_Returned [OF admissionFailed(3)] initialize_effect [OF admissionFailed(1)] job
      show ?thesis by (simp add: find_None_jobId)
    next
      case (admitted s1 s2 s5 u)
      from storageRead_Returned [OF admitted(3)] initialize_effect [OF admitted(1)] job
      show ?thesis by (simp add: find_None_jobId)
    qed
  qed
  show ?thesis
  proof (intro conjI impI allI)
    show "storage (snd (schedule w s jid rq optArg)) = storage s" using a run by simp
  next
    fix r assume "fst (schedule w s jid rq optArg) = Returned r"
    with a run show "r = \<lparr>rJobId = jid, resuming = Some True\<rparr>" by simp
  next
    assume "\<forall>k<4. storageW w (ops s + k) = Proceed"
    from b [OF this] run show "fst (schedule w s jid rq optArg) = Returned \<lparr>rJobId = jid, resuming = Some True\<rparr>"
      by simp
  qed
qed

theorem schedule_existing_job_witness:
  "validate (Array [\<lparr>cUrl = Some ''https://x/c'', cMethod = Some ''POST'', cHeaders = None, cBody = None\<rparr>])
     defaultOptions = None
   \<and> ''j1'' \<in> jobId ` set (jobs (storage midJob))
   \<and> fst (schedule (worldWith [] []) midJob ''j1''
        (Array [\<lparr>cUrl = Some ''https://x/c'', cMethod = Some ''POST'', cHeaders = None, cBody = None\<rparr>]) None)
       = Returned \<lparr>rJobId = ''j1'', resuming = Some True\<rparr>
   \<and> storage (snd (schedule (worldWith [] []) midJob ''j1''
        (Array [\<lparr>cUrl = Some ''https://x/c'', cMethod = Some ''POST'', cHeaders = None, cBody = None\<rparr>]) None))
       = storage midJob"
proof -
  let ?rq = "Array [\<lparr>cUrl = Some ''https://x/c'', cMethod = Some ''POST'', cHeaders = None, cBody = None\<rparr>]"
  have v: "validate ?rq (case None of None \<Rightarrow> defaultOptions | Some opts \<Rightarrow> opts) = None"
    by (simp add: validate_def defaultOptions_def falsy_def)
  have j: "''j1'' \<in> jobId ` set (jobs (storage midJob))" by (simp add: midJob_def)
  have p: "\<forall>k<4. storageW (worldWith [] []) (ops midJob + k) = Proceed" by (simp add: worldWith_def)
  note th = schedule_existing_job [where rq = ?rq and optArg = None and jid = "''j1''" and s = midJob
      and w = "worldWith [] []", OF v disjI1 [OF j]]
  from th have a: "storage (snd (schedule (worldWith [] []) midJob ''j1'' ?rq None)) = storage midJob"
    by (rule conjunct1)
  from th have "(\<forall>k<4. storageW (worldWith [] []) (ops midJob + k) = Proceed) \<longrightarrow>
      fst (schedule (worldWith [] []) midJob ''j1'' ?rq None) = Returned \<lparr>rJobId = ''j1'', resuming = Some True\<rparr>"
    by (rule conjunct2 [THEN conjunct2])
  then have b: "fst (schedule (worldWith [] []) midJob ''j1'' ?rq None) = Returned \<lparr>rJobId = ''j1'', resuming = Some True\<rparr>"
    using p by (rule mp)
  have v': "validate ?rq defaultOptions = None" using v by simp
  from v' j b a show ?thesis by (intro conjI)
qed

section \<open>The states an instance can reach\<close>

lemma wellFormed_emptyStore: "wellFormed emptyStore"
  by (simp add: wellFormed_def emptyStore_def completeResolved_def)

lemma resumeProcessing_wellFormed:
  assumes "resumeProcessing w s = (res, s')" and "wellFormed (storage s)"
  shows "wellFormed (storage s')"
proof -
  from assms(2) have "distinct (map rid (requests (storage s)))" by (simp add: wellFormed_def)
  from wellFormed_advanced [OF assms(2) resumeProcessing_advanced [OF assms(1) this]] show ?thesis .
qed

lemma schedule_wellFormed:
  assumes run: "schedule w s jid rq optArg = (res, s')" and wf: "wellFormed (storage s)"
  shows "wellFormed (storage s')"
  using run
proof (cases rule: schedule_cases)
  case (initFailed u)
  with initialize_effect [OF initFailed(1)] wf show ?thesis by simp
next
  case (invalid msg)
  with initialize_effect [OF invalid(1)] wf show ?thesis by simp
next
  case (lookupFailed s1 u)
  with initialize_effect [OF lookupFailed(1)] storageRead_storage [OF lookupFailed(3)] wf show ?thesis by simp
next
  case (existing s1 i)
  with initialize_effect [OF existing(1)] storageRead_storage [OF existing(3)] wf show ?thesis by simp
next
  case (admissionFailed s1 s2 u)
  from admission_effect [OF admissionFailed(4)] admissionFailed(5) have "storage s' = storage s2" by auto
  with initialize_effect [OF admissionFailed(1)] storageRead_storage [OF admissionFailed(3)] wf show ?thesis by simp
next
  case (admitted s1 s2 s5 u)
  let ?opts = "case optArg of None \<Rightarrow> defaultOptions | Some opts \<Rightarrow> opts"
  from admission_effect [OF admitted(4)]
  have st5: "storage s5 = admitted jid (clock s2) (oRateLimit ?opts) (oUnit ?opts) (entries rq) (storage s2)"
    by simp
  from storageRead_Returned [OF admitted(3)] storageRead_storage [OF admitted(3)] initialize_effect [OF admitted(1)]
  have s2: "storage s2 = storage s" and fresh: "jid \<notin> jobId ` set (jobs (storage s))"
    by (auto simp: find_None_jobId)
  from validate_None [OF admitted(2)] wellFormed_admitted [OF wf fresh, of "entries rq" "oRateLimit ?opts"] st5 s2
  have wf5: "wellFormed (storage s5)" by simp
  from admitted(5) show ?thesis
  proof (cases rule: if_resume_cases)
    case resumed
    from resumeProcessing_wellFormed [OF resumed(2) wf5] show ?thesis .
  next
    case skipped
    with wf5 show ?thesis by simp
  qed
qed

lemma status_of_storage: "storage (snd (status_of w s jid)) = storage s"
proof -
  obtain res s' where run: "status_of w s jid = (res, s')" by (cases "status_of w s jid")
  from run have "storage s' = storage s"
    unfolding status_of_def
  proof (cases rule: andThenE)
    case (continued a s1)
    note i = initialize_effect [OF continued(1)]
    from continued(2) show ?thesis
    proof (cases rule: andThenE)
      case (continued job s2)
      note r = storageRead_mem [OF continued(1)]
      show ?thesis
      proof (cases job)
        case None
        with continued(2) i r show ?thesis by auto
      next
        case (Some row)
        obtain j dn tot where row: "row = (j, dn, tot)" by (cases row)
        show ?thesis
        proof (cases "jstatus j = Complete")
          case True
          with continued(2) Some row
          have "andThen (storageRead w s2 (resultRows jid)) (\<lambda>rs s3. (Returned (Completed rs), s3)) = (res, s')"
            by simp
          then show ?thesis
          proof (cases rule: andThenE)
            case (continued rs s3)
            with storageRead_mem [OF continued(1)] i r show ?thesis by auto
          next
            case (raised e)
            with storageRead_mem [OF raised(1)] i r show ?thesis by auto
          next
            case crashed
            with storageRead_mem [OF crashed(1)] i r show ?thesis by auto
          qed
        next
          case False
          with continued(2) Some row i r show ?thesis by auto
        qed
      qed
    next
      case (raised e)
      with storageRead_mem [OF raised(1)] i show ?thesis by auto
    next
      case crashed
      with storageRead_mem [OF crashed(1)] i show ?thesis by auto
    qed
  next
    case (raised e)
    with initialize_effect [OF raised(1)] show ?thesis by auto
  next
    case crashed
    with initialize_effect [OF crashed(1)] show ?thesis by auto
  qed
  with run show ?thesis by simp
qed

lemma restart_wellFormed:
  assumes "restart w s = (res, s')" and "wellFormed (storage s)"
  shows "wellFormed (storage s')"
  using assms(1) unfolding restart_def construct_def
proof (cases rule: andThenE)
  case (continued a s1)
  from storageRead_storage [OF continued(1)] assms(2) have wf1: "wellFormed (storage s1)" by simp
  show ?thesis
  proof (cases "case a of None \<Rightarrow> False | Some t \<Rightarrow> t \<noteq> 0")
    case True
    with continued(2) have "resumeProcessing w s1 = (res, s')" by simp
    from resumeProcessing_wellFormed [OF this wf1] show ?thesis .
  next
    case False
    with continued(2) wf1 show ?thesis by auto
  qed
next
  case (raised e)
  from storageRead_storage [OF raised(1)] assms(2) show ?thesis by simp
next
  case crashed
  from storageRead_storage [OF crashed(1)] assms(2) show ?thesis by simp
qed

text \<open>
  The states of an instance: a first instance over the empty durable state; the
  state after a call of \<open>schedule\<close> or of \<open>status\<close>, however the call ends; a new instance
  over the same durable state (a restart); and the same instance some time later.
\<close>

inductive reachable :: "engine \<Rightarrow> bool" where
  fresh: "reachable (snd (construct w emptyStore now 0 []))"
| scheduled: "reachable s \<Longrightarrow> reachable (snd (schedule w s jid rq optArg))"
| polled: "reachable s \<Longrightarrow> reachable (snd (status_of w s jid))"
| restarted: "reachable s \<Longrightarrow> reachable (snd (restart w s))"
| later: "reachable s \<Longrightarrow> 0 \<le> d \<Longrightarrow> reachable (s\<lparr>clock := clock s + d\<rparr>)"

lemma reachable_wellFormed: "reachable s \<Longrightarrow> wellFormed (storage s)"
proof (induction rule: reachable.induct)
  case (fresh w now)
  obtain res s' where c: "construct w emptyStore now 0 [] = (res, s')"
    by (cases "construct w emptyStore now 0 []")
  let ?s0 = "\<lparr>storage = emptyStore, processing = False, lastCheckpoint = now, currentJobId = None,
                clock = now, ops = 0, dispatched = []\<rparr>"
  have "restart w ?s0 = (res, s')" using c by (simp add: restart_def)
  from restart_wellFormed [OF this] wellFormed_emptyStore c show ?case by simp
next
  case (scheduled s w jid rq optArg)
  then show ?case using schedule_wellFormed [of w s jid rq optArg] by (metis prod.collapse)
next
  case (polled s w jid)
  then show ?case by (simp add: status_of_storage)
next
  case (restarted s w)
  then show ?case using restart_wellFormed [of w s] by (metis prod.collapse)
next
  case (later s d)
  then show ?case by simp
qed

section \<open>The status report\<close>

subsection \<open>The arithmetic of the estimate\<close>

lemma pow2_powi: "pow2 e = 2 powi e"
  by (simp add: pow2_def power_int_def power_one_over [symmetric] inverse_eq_divide)

lemma pow2_step: "pow2 (e + 1) = 2 * pow2 e"
  by (simp add: pow2_powi power_int_add)

lemma pow2_pos: "0 < pow2 e"
  by (simp add: pow2_powi)

text \<open>\<open>expo\<close> is the exponent.\<close>

lemma expo_bounds: "0 < x \<Longrightarrow> pow2 (expo x) \<le> x \<and> x < pow2 (expo x + 1)"
proof (induction x rule: expo.induct)
  case (1 x)
  from "1.prems" have pos: "\<not> x \<le> 0" by simp
  consider (big) "2 \<le> x" | (small) "x < 1" | (unit) "1 \<le> x" "x < 2" by linarith
  then show ?case
  proof cases
    case big
    from "1.prems" have "0 < x / 2" by simp
    from "1.IH"(1) [OF pos big this] have ih: "pow2 (expo (x / 2)) \<le> x / 2" "x / 2 < pow2 (expo (x / 2) + 1)"
      by blast+
    from pos big have e: "expo x = expo (x / 2) + 1" by (subst expo.simps) simp
    have "pow2 (expo (x / 2) + 1) \<le> x" using ih(1) by (simp add: pow2_step)
    moreover have "x < pow2 (expo (x / 2) + 1 + 1)" using ih(2) by (subst pow2_step) simp
    ultimately show ?thesis unfolding e by blast
  next
    case small
    with pos have n2: "\<not> 2 \<le> x" by simp
    from "1.prems" have "0 < 2 * x" by simp
    from "1.IH"(2) [OF pos n2 small this]
    have ih: "pow2 (expo (2 * x)) \<le> 2 * x" "2 * x < pow2 (expo (2 * x) + 1)" by blast+
    from pos n2 small have e: "expo x = expo (2 * x) - 1" by (subst expo.simps) simp
    have s: "pow2 (expo (2 * x)) = 2 * pow2 (expo (2 * x) - 1)" using pow2_step [of "expo (2 * x) - 1"] by simp
    have "pow2 (expo (2 * x) - 1) \<le> x" using ih(1) s by simp
    moreover have "x < pow2 (expo (2 * x) - 1 + 1)" using ih(2) pow2_step [of "expo (2 * x)"] by simp
    ultimately show ?thesis unfolding e by blast
  next
    case unit
    with pos have "expo x = 0" by (subst expo.simps) simp
    with unit show ?thesis by (simp add: pow2_def)
  qed
qed


text \<open>The nearest integer is within one half.\<close>

lemma nearestEven_near: "\<bar>real_of_int (nearestEven q) - q\<bar> \<le> 1 / 2"
proof -
  define f where "f = \<lfloor>q\<rfloor>"
  define d where "d = q - real_of_int f"
  have r: "0 \<le> d" "d < 1" unfolding d_def f_def by linarith+
  have n: "nearestEven q = halfEven f d" by (simp add: nearestEven_def f_def d_def)
  have "(halfEven f d = f \<and> d \<le> 1 / 2) \<or> (halfEven f d = f + 1 \<and> 1 / 2 \<le> d)"
    unfolding halfEven_def by (cases "d < 1 / 2"; cases "1 / 2 < d"; cases "even f") simp_all
  then show ?thesis
  proof
    assume "halfEven f d = f \<and> d \<le> 1 / 2"
    with r n have "real_of_int (nearestEven q) - q = - d" "d \<le> 1 / 2" by (simp_all add: d_def)
    with r show ?thesis by simp
  next
    assume "halfEven f d = f + 1 \<and> 1 / 2 \<le> d"
    with r n have "real_of_int (nearestEven q) - q = 1 - d" "1 / 2 \<le> d" by (simp_all add: d_def)
    with r show ?thesis by simp
  qed
qed

text \<open>A rounded magnitude is within half a quantum.\<close>

lemma nearest_near: "\<bar>nearest a (quantum a) - a\<bar> \<le> quantum a / 2"
proof -
  define u where "u = quantum a"
  define n where "n = real_of_int (nearestEven (a / u))"
  have u: "0 < u" by (simp add: u_def quantum_def pow2_pos)
  then have 1: "(a / u) * u = a" by simp
  have "n * u - a = (n - a / u) * u" by (simp only: left_diff_distrib 1)
  then have "\<bar>n * u - a\<bar> = \<bar>n - a / u\<bar> * u" using u by (simp only: abs_mult abs_of_pos)
  also have "\<dots> \<le> (1 / 2) * u"
    using nearestEven_near [of "a / u"] u unfolding n_def by (intro mult_right_mono) simp_all
  finally show ?thesis unfolding n_def u_def nearest_def by simp
qed

text \<open>Two values of the estimate: one where the roundings leave a last bit (the exact
  quotient is 245), and one with no time elapsed.\<close>

lemma estimateCompletion_values:
  "estimateCompletion 49 0 5 1 = Some (Num (245 + 1 / 2 ^ 45))
   \<and> estimateCompletion 1000 1000 2 1 = Some (Num 1000)"
proof -
  have a: "estimateCompletion 49 0 5 1 = Some (Num (8620171161763841 / 35184372088832))" by code_simp
  have b: "estimateCompletion 1000 1000 2 1 = Some (Num 1000)" by code_simp
  have "(245 + 1 / 2 ^ 45 :: real) = 8620171161763841 / 35184372088832" by simp
  with a b show ?thesis by simp
qed

text \<open>The counts of the specification: the resolved requests of a job, and all of
  them.\<close>

definition resolvedCount :: "string \<Rightarrow> store \<Rightarrow> nat" where
  "resolvedCount jid db =
     length (filter (\<lambda>x. rjobId x = jid \<and> (status x \<noteq> None \<or> error x \<noteq> None)) (requests db))"

definition totalCount :: "string \<Rightarrow> store \<Rightarrow> nat" where
  "totalCount jid db = length (filter (\<lambda>x. rjobId x = jid) (requests db))"

text \<open>The linear extrapolation of the specification,
  \<open>now + (total - completed) / (completed / elapsedSinceStart)\<close>, in the arithmetic of the
  language.\<close>

definition extrapolation :: "int \<Rightarrow> int \<Rightarrow> nat \<Rightarrow> nat \<Rightarrow> double" where
  "extrapolation now started tot done =
     dadd (ofInt now)
       (ddiv (dsub (ofInt (int tot)) (ofInt (int done)))
          (ddiv (ofInt (int done)) (dsub (ofInt now) (ofInt started))))"

lemma find_distinct:
  "distinct (map f xs) \<Longrightarrow> x \<in> set xs \<Longrightarrow> find (\<lambda>y. f y = f x) xs = Some x"
proof (induction xs)
  case Nil
  then show ?case by simp
next
  case (Cons a xs)
  show ?case
  proof (cases "a = x")
    case True
    then show ?thesis by simp
  next
    case False
    with Cons.prems have "x \<in> set xs" "f a \<noteq> f x" by auto
    with Cons show ?thesis by simp
  qed
qed

lemma jobRow_None: "(jobRow jid db = None) = (jid \<notin> jobId ` set (jobs db))"
  by (simp add: jobRow_def Let_def find_None_jobId [symmetric] split: option.splits)

lemma jobRow_Some:
  assumes wf: "wellFormed db" and j: "j \<in> set (jobs db)" "jobId j = jid"
  shows "jobRow jid db = Some (j, resolvedCount jid db, totalCount jid db)"
proof -
  from wf have "distinct (map jobId (jobs db))" by (simp add: wellFormed_def)
  from find_distinct [OF this j(1)] j(2) have f: "find (\<lambda>y. jobId y = jid) (jobs db) = Some j" by simp
  from wf j obtain x where "x \<in> set (requests db)" "rjobId x = jid" by (auto simp: wellFormed_def)
  then have ne: "filter (\<lambda>r. rjobId r = jid) (requests db) \<noteq> []" by (auto simp: filter_empty_conv)
  from f ne show ?thesis by (simp add: jobRow_def Let_def resolvedCount_def totalCount_def conj_commute)
qed

lemma status_of_Returned:
  assumes "status_of w s jid = (Returned r, s')"
  shows "(case jobRow jid (storage s) of
            None \<Rightarrow> r = NotFound
          | Some (j, dn, tot) \<Rightarrow>
              if jstatus j = Complete then r = Completed (resultRows jid (storage s))
              else r = InProgress \<lparr>completed = dn, total = tot, pStartedAt = startedAt j,
                         estimatedCompletion = estimateCompletion (clock s) (startedAt j) tot dn\<rparr>)"
  using assms unfolding status_of_def
proof (cases rule: andThenE)
  case (continued a s1)
  note i = initialize_effect [OF continued(1)]
  from continued(2) show ?thesis
  proof (cases rule: andThenE)
    case (continued job s2)
    note m = storageRead_mem [OF continued(1)]
    from storageRead_Returned [OF continued(1)] i have job: "job = jobRow jid (storage s)" by simp
    show ?thesis
    proof (cases job)
      case None
      with continued(2) job show ?thesis by auto
    next
      case (Some row)
      obtain j dn tot where row: "row = (j, dn, tot)" by (cases row)
      from job Some row have jr: "jobRow jid (storage s) = Some (j, dn, tot)" by simp
      show ?thesis
      proof (cases "jstatus j = Complete")
        case True
        with continued(2) Some row
        have "andThen (storageRead w s2 (resultRows jid)) (\<lambda>rs s3. (Returned (Completed rs), s3)) = (Returned r, s')"
          by simp
        then show ?thesis
        proof (cases rule: andThenE)
          case (continued rs s3)
          from storageRead_Returned [OF continued(1)] m i have "rs = resultRows jid (storage s)" by simp
          with continued(2) jr True show ?thesis by simp
        qed simp_all
      next
        case False
        with continued(2) Some row jr i m show ?thesis by auto
      qed
    qed
  qed simp_all
qed simp_all

lemma status_of_returns:
  assumes go: "\<forall>k<5. storageW w (ops s + k) = Proceed"
  shows "\<exists>r. fst (status_of w s jid) = Returned r"
proof -
  from go have go3: "\<forall>k<3. storageW w (ops s + k) = Proceed"
    and go4: "storageW w (ops s + 3) = Proceed" and go5: "storageW w (ops s + 4) = Proceed" by simp_all
  obtain u s1 where i: "initialize w s = (u, s1)" by (cases "initialize w s")
  from initialize_effect [OF i] have "(u = Returned ()) = (\<forall>k<3. storageW w (ops s + k) = Proceed)" by simp
  with go3 have u: "u = Returned ()" by simp
  from initialize_effect [OF i] u have o1: "ops s1 = ops s + 3" by simp
  with go4 have r1: "storageRead w s1 (jobRow jid) = (Returned (jobRow jid (storage s1)), s1\<lparr>ops := Suc (ops s1)\<rparr>)"
    by (simp add: storageRead_def Let_def)
  from o1 have e: "Suc (ops s1) = ops s + 4" by simp
  have "storageW w (Suc (ops s1)) = Proceed" unfolding e by (rule go5)
  then have r2: "storageRead w (s1\<lparr>ops := Suc (ops s1)\<rparr>) (resultRows jid)
       = (Returned (resultRows jid (storage s1)), s1\<lparr>ops := Suc (Suc (ops s1))\<rparr>)"
    by (simp add: storageRead_def Let_def)
  from i u r1 r2 show ?thesis
    by (simp add: status_of_def andThen_def split: option.splits prod.splits)
qed

text \<open>
  C7. On every state an instance can reach: \<open>status\<close> leaves the durable state as it is;
  it returns when its storage calls go through; it returns \<open>not_found\<close> exactly when no
  job has the id; and for a job in state processing it returns the number of requests
  of the job with a status or an error as \<open>completed\<close>, the number of requests of the job
  as \<open>total\<close>, and as \<open>estimatedCompletion\<close> nothing when \<open>completed\<close> is 0 and else the
  linear extrapolation, computed in the numbers of the language (binary64, each
  operation rounded to nearest).
\<close>

theorem status_of_report:
  assumes re: "reachable s"
  shows "storage (snd (status_of w s jid)) = storage s
       \<and> ((\<forall>k<5. storageW w (ops s + k) = Proceed) \<longrightarrow> (\<exists>r. fst (status_of w s jid) = Returned r))
       \<and> (\<forall>r. fst (status_of w s jid) = Returned r \<longrightarrow>
            ((r = NotFound) = (jid \<notin> jobId ` set (jobs (storage s))))
            \<and> (\<forall>j\<in>set (jobs (storage s)). jobId j = jid \<longrightarrow> jstatus j = Processing \<longrightarrow>
                 r = InProgress
                      \<lparr>completed = resolvedCount jid (storage s), total = totalCount jid (storage s),
                        pStartedAt = startedAt j,
                        estimatedCompletion =
                          (if resolvedCount jid (storage s) = 0 then None
                           else Some (extrapolation (clock s) (startedAt j) (totalCount jid (storage s))
                                        (resolvedCount jid (storage s))))\<rparr>))"
proof (intro conjI allI impI ballI)
  show "storage (snd (status_of w s jid)) = storage s" by (rule status_of_storage)
next
  assume "\<forall>k<5. storageW w (ops s + k) = Proceed"
  then show "\<exists>r. fst (status_of w s jid) = Returned r" by (rule status_of_returns)
next
  fix r assume "fst (status_of w s jid) = Returned r"
  then have "status_of w s jid = (Returned r, snd (status_of w s jid))" by (metis prod.collapse)
  note ret = status_of_Returned [OF this]
  show "(r = NotFound) = (jid \<notin> jobId ` set (jobs (storage s)))"
  proof (cases "jobRow jid (storage s)")
    case None
    with ret jobRow_None [of jid "storage s"] show ?thesis by simp
  next
    case (Some row)
    with ret jobRow_None [of jid "storage s"] show ?thesis by (auto split: prod.splits if_splits)
  qed
  fix j assume j: "j \<in> set (jobs (storage s))" "jobId j = jid" "jstatus j = Processing"
  from jobRow_Some [OF reachable_wellFormed [OF re] j(1,2)] ret j(3)
  show "r = InProgress
                      \<lparr>completed = resolvedCount jid (storage s), total = totalCount jid (storage s),
                        pStartedAt = startedAt j,
                        estimatedCompletion =
                          (if resolvedCount jid (storage s) = 0 then None
                           else Some (extrapolation (clock s) (startedAt j) (totalCount jid (storage s))
                                        (resolvedCount jid (storage s))))\<rparr>"
    by (simp add: estimateCompletion_def extrapolation_def Let_def)
qed

text \<open>
  A first instance over the empty durable state; a submission of two requests at two
  per second; and the instance after that submission when the storage rejects its call
  number \<open>k\<close> (the instance itself makes call 0, \<open>schedule\<close> the calls from 1 on: 1 to 3
  \<open>initialize\<close>, 4 the lookup, 5 to 7 the three INSERTs, 8 and 9 the two SELECTs of the loop,
  10 to 12 the first request, 13 to 15 the second, 16 the UPDATE to complete).
\<close>

definition firstInstance :: engine where
  "firstInstance = snd (construct (worldWith [] []) emptyStore 0 0 [])"

definition twoRequests :: requestsArg where
  "twoRequests =
     Array [\<lparr>cUrl = Some ''https://x/a'', cMethod = Some ''GET'', cHeaders = None, cBody = None\<rparr>,
            \<lparr>cUrl = Some ''https://x/b'', cMethod = Some ''GET'', cHeaders = None, cBody = None\<rparr>]"

definition afterFault :: "nat \<Rightarrow> engine" where
  "afterFault k =
     snd (schedule (worldWith [k] []) firstInstance ''j1'' twoRequests
            (Some \<lparr>oRateLimit = Finite 2, oUnit = ''second''\<rparr>))"

lemma reachable_afterFault: "reachable (afterFault k)"
  unfolding afterFault_def firstInstance_def by (intro reachable.scheduled reachable.fresh)

theorem status_of_report_witness:
  "reachable ((afterFault 11)\<lparr>clock := clock (afterFault 11) + 1000\<rparr>)
   \<and> storage (snd (status_of (worldWith [] []) ((afterFault 11)\<lparr>clock := clock (afterFault 11) + 1000\<rparr>) ''j1''))
       = storage (afterFault 11)
   \<and> fst (status_of (worldWith [] []) ((afterFault 11)\<lparr>clock := clock (afterFault 11) + 1000\<rparr>) ''j1'')
       = Returned (InProgress \<lparr>completed = 1, total = 2, pStartedAt = 0, estimatedCompletion = Some (Num 2000)\<rparr>)
   \<and> fst (status_of (worldWith [] []) ((afterFault 11)\<lparr>clock := clock (afterFault 11) + 1000\<rparr>) ''j2'')
       = Returned NotFound"
proof -
  let ?s = "(afterFault 11)\<lparr>clock := clock (afterFault 11) + 1000\<rparr>"
  let ?w = "worldWith [] []"
  have re: "reachable ?s" by (rule reachable.later [OF reachable_afterFault]) simp
  from status_of_report [OF re, of ?w "''j1''"]
  have st: "storage (snd (status_of ?w ?s ''j1'')) = storage ?s" by (rule conjunct1)
  have r1: "fst (status_of ?w ?s ''j1'')
       = Returned (InProgress \<lparr>completed = 1, total = 2, pStartedAt = 0, estimatedCompletion = Some (Num 2000)\<rparr>)"
    by code_simp
  have r2: "fst (status_of ?w ?s ''j2'') = Returned NotFound" by code_simp
  from re st r1 r2 show ?thesis by simp
qed

section \<open>An exception in the loop\<close>




section \<open>What an operation changes\<close>

text \<open>Between the durable states before and after an operation: the rows that were
  there have advanced, and rows may have been appended.\<close>

definition evolved :: "store \<Rightarrow> store \<Rightarrow> bool" where
  "evolved db db' \<longleftrightarrow>
     (\<exists>us vs. requests db' = us @ vs \<and> list_all2 rowAdv (requests db) us) \<and>
     (\<exists>js ks. jobs db' = js @ ks \<and> list_all2 jobAdv (jobs db) js)"

lemma evolved_same:
  assumes "list_all2 rowAdv (requests db) (requests db')" and "list_all2 jobAdv (jobs db) (jobs db')"
  shows "evolved db db'"
  unfolding evolved_def
proof
  from assms(1) have "requests db' = requests db' @ [] \<and> list_all2 rowAdv (requests db) (requests db')" by simp
  then show "\<exists>us vs. requests db' = us @ vs \<and> list_all2 rowAdv (requests db) us" by blast
  from assms(2) have "jobs db' = jobs db' @ [] \<and> list_all2 jobAdv (jobs db) (jobs db')" by simp
  then show "\<exists>js ks. jobs db' = js @ ks \<and> list_all2 jobAdv (jobs db) js" by blast
qed

lemma evolved_refl: "evolved db db"
  by (rule evolved_same) (simp_all add: list.rel_refl)

lemma list_all2_prefix_trans:
  assumes "list_all2 P xs us" and "list_all2 P (us @ vs) ws" and tr: "\<And>a b c. P a b \<Longrightarrow> P b c \<Longrightarrow> P a c"
  shows "\<exists>us' vs'. ws = us' @ vs' \<and> list_all2 P xs us'"
proof -
  from assms(2) obtain us' vs' where w: "ws = us' @ vs'" "list_all2 P us us'"
    by (auto simp: list_all2_append1)
  have "list_all2 P xs us'"
  proof (rule list_all2_trans [OF _ assms(1) w(2)])
    fix a b c assume "P a b" "P b c"
    then show "P a c" by (rule tr)
  qed
  with w(1) show ?thesis by blast
qed

lemma evolved_trans:
  assumes "evolved a b" and "evolved b c"
  shows "evolved a c"
proof -
  from assms(1) obtain us vs js ks where b: "requests b = us @ vs" "list_all2 rowAdv (requests a) us"
    "jobs b = js @ ks" "list_all2 jobAdv (jobs a) js" by (auto simp: evolved_def)
  from assms(2) obtain us2 vs2 js2 ks2 where c: "requests c = us2 @ vs2" "list_all2 rowAdv (requests b) us2"
    "jobs c = js2 @ ks2" "list_all2 jobAdv (jobs b) js2" by (auto simp: evolved_def)
  from c(2) b(1) have c2: "list_all2 rowAdv (us @ vs) us2" by simp
  have "\<exists>us' vs'. us2 = us' @ vs' \<and> list_all2 rowAdv (requests a) us'"
    by (rule list_all2_prefix_trans [where P = rowAdv, OF b(2) c2]) (rule rowAdv_trans)
  then obtain us' vs' where r: "us2 = us' @ vs'" "list_all2 rowAdv (requests a) us'" by (elim exE conjE)
  from c(4) b(3) have c4: "list_all2 jobAdv (js @ ks) js2" by simp
  have "\<exists>js' ks'. js2 = js' @ ks' \<and> list_all2 jobAdv (jobs a) js'"
    by (rule list_all2_prefix_trans [where P = jobAdv, OF b(4) c4]) (rule jobAdv_trans)
  then obtain js' ks' where j: "js2 = js' @ ks'" "list_all2 jobAdv (jobs a) js'" by (elim exE conjE)
  from c(1) r have "requests c = us' @ (vs' @ vs2)" by simp
  moreover from c(3) j have "jobs c = js' @ (ks' @ ks2)" by simp
  ultimately have "(\<exists>us vs. requests c = us @ vs \<and> list_all2 rowAdv (requests a) us)"
    "(\<exists>js ks. jobs c = js @ ks \<and> list_all2 jobAdv (jobs a) js)" using r(2) j(2) by blast+
  then show ?thesis unfolding evolved_def by (rule conjI)
qed

lemma advanced_evolved: "advanced s s' \<Longrightarrow> evolved (storage s) (storage s')"
  by (rule evolved_same) (simp_all add: advanced_def)

lemma admitted_evolved: "evolved db (admitted jid t rl unit cs db)"
  unfolding evolved_def
proof
  have "requests (admitted jid t rl unit cs db) = requests db @ newRows jid (nextId db) cs
      \<and> list_all2 rowAdv (requests db) (requests db)"
    by (simp add: admitted_def list.rel_refl)
  then show "\<exists>us vs. requests (admitted jid t rl unit cs db) = us @ vs \<and> list_all2 rowAdv (requests db) us"
    by blast
  have "\<exists>k. jobs (admitted jid t rl unit cs db) = jobs db @ [k] \<and> list_all2 jobAdv (jobs db) (jobs db)"
    by (simp add: admitted_def insertJob_def list.rel_refl)
  then show "\<exists>js ks. jobs (admitted jid t rl unit cs db) = js @ ks \<and> list_all2 jobAdv (jobs db) js"
    by blast
qed

lemma evolved_stable:
  assumes "evolved db db'" and "x \<in> set (requests db)" and "\<not> pending x"
  shows "x \<in> set (requests db')"
proof -
  from assms(1) obtain us vs where u: "requests db' = us @ vs" "list_all2 rowAdv (requests db) us"
    by (auto simp: evolved_def)
  from list_all2_set1 [OF u(2) assms(2)] obtain x' where "x' \<in> set us" "rowAdv x x'" by blast
  with rowAdv_resolved [OF this(2) assms(3)] u(1) show ?thesis by simp
qed

lemma evolved_complete:
  assumes "evolved db db'" and "distinct (map jobId (jobs db'))"
    and "j \<in> set (jobs db)" and "jstatus j = Complete"
    and "j' \<in> set (jobs db')" and "jobId j' = jobId j"
  shows "jstatus j' = Complete"
proof -
  from assms(1) obtain js ks where u: "jobs db' = js @ ks" "list_all2 jobAdv (jobs db) js"
    by (auto simp: evolved_def)
  from list_all2_set1 [OF u(2) assms(3)] obtain j2 where j2: "j2 \<in> set js" "jobAdv j j2" by blast
  with assms(4) have c: "jstatus j2 = Complete" "jobId j2 = jobId j" by (auto simp: jobAdv_def)
  from j2(1) u(1) have "j2 \<in> set (jobs db')" by simp
  moreover from assms(2) have "inj_on jobId (set (jobs db'))" by (simp add: distinct_map)
  ultimately have "j' = j2" using assms(5,6) c(2) inj_onD [of jobId "set (jobs db')" j' j2] by simp
  with c show ?thesis by simp
qed

lemma rowAdv_count:
  "list_all2 rowAdv xs ys \<Longrightarrow>
     length (filter (\<lambda>x. rjobId x = jid \<and> (status x \<noteq> None \<or> error x \<noteq> None)) xs)
       \<le> length (filter (\<lambda>x. rjobId x = jid \<and> (status x \<noteq> None \<or> error x \<noteq> None)) ys)"
proof (induction rule: list_all2_induct)
  case Nil
  then show ?case by simp
next
  case (Cons x xs y ys)
  from Cons(1) have "rjobId x = jid \<and> (status x \<noteq> None \<or> error x \<noteq> None)
      \<longrightarrow> rjobId y = jid \<and> (status y \<noteq> None \<or> error y \<noteq> None)"
    by (auto simp: rowAdv_def pending_def)
  with Cons show ?case by auto
qed

lemma evolved_count:
  assumes "evolved db db'"
  shows "resolvedCount jid db \<le> resolvedCount jid db'"
proof -
  from assms obtain us vs where u: "requests db' = us @ vs" "list_all2 rowAdv (requests db) us"
    by (auto simp: evolved_def)
  from rowAdv_count [OF u(2), of jid] u(1) show ?thesis by (simp add: resolvedCount_def)
qed

lemma resumeProcessing_evolved:
  assumes "resumeProcessing w s = (res, s')" and "wellFormed (storage s)"
  shows "evolved (storage s) (storage s')"
proof -
  from assms(2) have "distinct (map rid (requests (storage s)))" by (simp add: wellFormed_def)
  from advanced_evolved [OF resumeProcessing_advanced [OF assms(1) this]] show ?thesis .
qed

lemma schedule_evolved:
  assumes run: "schedule w s jid rq optArg = (res, s')" and wf: "wellFormed (storage s)"
  shows "evolved (storage s) (storage s')"
  using run
proof (cases rule: schedule_cases)
  case (initFailed u)
  with initialize_effect [OF initFailed(1)] show ?thesis by (simp add: evolved_refl)
next
  case (invalid msg)
  with initialize_effect [OF invalid(1)] show ?thesis by (simp add: evolved_refl)
next
  case (lookupFailed s1 u)
  with initialize_effect [OF lookupFailed(1)] storageRead_storage [OF lookupFailed(3)] show ?thesis
    by (simp add: evolved_refl)
next
  case (existing s1 i)
  with initialize_effect [OF existing(1)] storageRead_storage [OF existing(3)] show ?thesis
    by (simp add: evolved_refl)
next
  case (admissionFailed s1 s2 u)
  from admission_effect [OF admissionFailed(4)] admissionFailed(5) have "storage s' = storage s2" by auto
  with initialize_effect [OF admissionFailed(1)] storageRead_storage [OF admissionFailed(3)] show ?thesis
    by (simp add: evolved_refl)
next
  case (admitted s1 s2 s5 u)
  let ?opts = "case optArg of None \<Rightarrow> defaultOptions | Some opts \<Rightarrow> opts"
  from admission_effect [OF admitted(4)]
  have st5: "storage s5 = admitted jid (clock s2) (oRateLimit ?opts) (oUnit ?opts) (entries rq) (storage s2)"
    by simp
  from storageRead_Returned [OF admitted(3)] storageRead_storage [OF admitted(3)] initialize_effect [OF admitted(1)]
  have s2: "storage s2 = storage s" and fresh: "jid \<notin> jobId ` set (jobs (storage s))"
    by (auto simp: find_None_jobId)
  from validate_None [OF admitted(2)] wellFormed_admitted [OF wf fresh, of "entries rq" "oRateLimit ?opts"] st5 s2
  have wf5: "wellFormed (storage s5)" by simp
  from st5 s2 admitted_evolved [of "storage s"] have e5: "evolved (storage s) (storage s5)" by simp
  from admitted(5) show ?thesis
  proof (cases rule: if_resume_cases)
    case resumed
    from evolved_trans [OF e5 resumeProcessing_evolved [OF resumed(2) wf5]] show ?thesis .
  next
    case skipped
    with e5 show ?thesis by simp
  qed
qed

lemma restart_evolved:
  assumes "restart w s = (res, s')" and "wellFormed (storage s)"
  shows "evolved (storage s) (storage s')"
  using assms(1) unfolding restart_def construct_def
proof (cases rule: andThenE)
  case (continued a s1)
  from storageRead_storage [OF continued(1)] assms(2) have st: "storage s1 = storage s" and wf1: "wellFormed (storage s1)"
    by simp_all
  show ?thesis
  proof (cases "case a of None \<Rightarrow> False | Some t \<Rightarrow> t \<noteq> 0")
    case True
    with continued(2) have "resumeProcessing w s1 = (res, s')" by simp
    from resumeProcessing_evolved [OF this wf1] st show ?thesis by simp
  next
    case False
    with continued(2) st show ?thesis by (auto simp: evolved_refl)
  qed
next
  case (raised e)
  from storageRead_storage [OF raised(1)] show ?thesis by (simp add: evolved_refl)
next
  case crashed
  from storageRead_storage [OF crashed(1)] show ?thesis by (simp add: evolved_refl)
qed

text \<open>The durable state after any one operation on a reachable state.\<close>

lemma operation_evolved:
  assumes "reachable s"
  shows "evolved (storage s) (storage (snd (schedule w s jid rq optArg)))"
    and "evolved (storage s) (storage (snd (status_of w s jid)))"
    and "evolved (storage s) (storage (snd (restart w s)))"
proof -
  note wf = reachable_wellFormed [OF assms]
  obtain r1 s1 where "schedule w s jid rq optArg = (r1, s1)" by (cases "schedule w s jid rq optArg")
  from schedule_evolved [OF this wf] this
  show "evolved (storage s) (storage (snd (schedule w s jid rq optArg)))" by simp
  show "evolved (storage s) (storage (snd (status_of w s jid)))"
    by (simp add: status_of_storage evolved_refl)
  obtain r2 s2 where "restart w s = (r2, s2)" by (cases "restart w s")
  from restart_evolved [OF this wf] this
  show "evolved (storage s) (storage (snd (restart w s)))" by simp
qed

section \<open>Outcomes are written once\<close>

text \<open>
  C3. In every state an instance can reach, a request is pending, or has a status and
  no error, or an error and no status; and a request that is resolved is in the table
  unchanged (status, response data, error and time as they were) after any further
  operation: a submission, a status query or a restart.
\<close>

theorem request_outcome_once:
  assumes re: "reachable s"
  shows "(\<forall>x\<in>set (requests (storage s)).
            pending x \<or> (status x \<noteq> None \<and> error x = None) \<or> (status x = None \<and> error x \<noteq> None))
       \<and> (\<forall>x\<in>set (requests (storage s)). \<not> pending x \<longrightarrow>
            x \<in> set (requests (storage (snd (schedule w s jid rq optArg))))
            \<and> x \<in> set (requests (storage (snd (status_of w s jid))))
            \<and> x \<in> set (requests (storage (snd (restart w s)))))"
proof (intro conjI ballI impI)
  fix x assume x: "x \<in> set (requests (storage s))"
  from reachable_wellFormed [OF re] x have "status x = None \<or> error x = None"
    by (simp add: wellFormed_def)
  then show "pending x \<or> (status x \<noteq> None \<and> error x = None) \<or> (status x = None \<and> error x \<noteq> None)"
    by (auto simp: pending_def)
next
  fix x assume x: "x \<in> set (requests (storage s))" "\<not> pending x"
  from evolved_stable [OF operation_evolved(1) [OF re] x]
  show "x \<in> set (requests (storage (snd (schedule w s jid rq optArg))))" .
  from evolved_stable [OF operation_evolved(2) [OF re] x]
  show "x \<in> set (requests (storage (snd (status_of w s jid))))" .
  from evolved_stable [OF operation_evolved(3) [OF re] x]
  show "x \<in> set (requests (storage (snd (restart w s))))" .
qed

theorem request_outcome_once_witness:
  "reachable (afterFault 11)
   \<and> map status (requests (storage (afterFault 11))) = [Some 200, None]
   \<and> map error (requests (storage (afterFault 11))) = [None, None]
   \<and> hd (requests (storage (afterFault 11)))
       \<in> set (requests (storage (snd (restart (worldWith [] []) (afterFault 11)))))
   \<and> hd (requests (storage (afterFault 11)))
       \<in> set (requests (storage (snd (schedule (worldWith [] []) (afterFault 11) ''j2'' twoRequests None))))"
proof -
  let ?s = "afterFault 11"
  have a: "map status (requests (storage ?s)) = [Some 200, None]" by code_simp
  have b: "map error (requests (storage ?s)) = [None, None]" by code_simp
  have h: "hd (requests (storage ?s)) \<in> set (requests (storage ?s))" by code_simp
  have n: "\<not> pending (hd (requests (storage ?s)))" by code_simp
  from request_outcome_once [OF reachable_afterFault [of 11], where w = "worldWith [] []"
      and jid = "''j2''" and rq = twoRequests and optArg = None]
  have "\<forall>x\<in>set (requests (storage ?s)). \<not> pending x \<longrightarrow>
            x \<in> set (requests (storage (snd (schedule (worldWith [] []) ?s ''j2'' twoRequests None))))
            \<and> x \<in> set (requests (storage (snd (status_of (worldWith [] []) ?s ''j2''))))
            \<and> x \<in> set (requests (storage (snd (restart (worldWith [] []) ?s))))"
    by (rule conjunct2)
  with h n have "hd (requests (storage ?s)) \<in> set (requests (storage (snd (schedule (worldWith [] []) ?s ''j2'' twoRequests None))))"
    "hd (requests (storage ?s)) \<in> set (requests (storage (snd (restart (worldWith [] []) ?s))))"
    by blast+
  with a b reachable_afterFault [of 11] show ?thesis by (intro conjI)
qed

section \<open>Progress of a job\<close>

text \<open>
  C5, as the claim states it, fails. When the storage rejects the UPDATE that marks the
  job complete (call 16 of the submission of two requests), both requests of the job
  are resolved and the job is still in state processing: \<open>status\<close> reports processing
  with \<open>completed\<close> equal to \<open>total\<close>.
\<close>

theorem all_resolved_not_complete_counterexample:
  "reachable (afterFault 16)
   \<and> map jstatus (jobs (storage (afterFault 16))) = [Processing]
   \<and> resolvedCount ''j1'' (storage (afterFault 16)) = 2
   \<and> totalCount ''j1'' (storage (afterFault 16)) = 2
   \<and> fst (status_of (worldWith [] []) (afterFault 16) ''j1'')
       = Returned (InProgress \<lparr>completed = 2, total = 2, pStartedAt = 0, estimatedCompletion = Some (Num 1000)\<rparr>)"
proof -
  have a: "map jstatus (jobs (storage (afterFault 16))) = [Processing]" by code_simp
  have b: "resolvedCount ''j1'' (storage (afterFault 16)) = 2" by code_simp
  have c: "totalCount ''j1'' (storage (afterFault 16)) = 2" by code_simp
  have d: "fst (status_of (worldWith [] []) (afterFault 16) ''j1'')
       = Returned (InProgress \<lparr>completed = 2, total = 2, pStartedAt = 0, estimatedCompletion = Some (Num 1000)\<rparr>)"
    by code_simp
  from reachable_afterFault [of 16] a b c d show ?thesis by (intro conjI)
qed

lemma resolved_total:
  assumes "\<forall>x\<in>set xs. rjobId x = jid \<longrightarrow> \<not> pending x"
  shows "length (filter (\<lambda>x. rjobId x = jid \<and> (status x \<noteq> None \<or> error x \<noteq> None)) xs)
       = length (filter (\<lambda>x. rjobId x = jid) xs)"
  using assms by (induction xs) (auto simp: pending_def)

text \<open>
  C5, amended. In every state an instance can reach, every request of a complete job is
  resolved, so that the resolved count of the job is its total; and over any operation
  (a submission, a status query, a restart) a complete job stays complete and the
  resolved count of no job decreases. A job may still be in state processing when all
  its requests are resolved.
\<close>

theorem job_progress_monotone:
  assumes re: "reachable s"
  shows "(\<forall>j\<in>set (jobs (storage s)). jstatus j = Complete \<longrightarrow>
            resolvedCount (jobId j) (storage s) = totalCount (jobId j) (storage s))
       \<and> (\<forall>s'\<in>{snd (schedule w s jid rq optArg), snd (status_of w s jid), snd (restart w s)}.
            (\<forall>j\<in>set (jobs (storage s)). jstatus j = Complete \<longrightarrow>
               (\<forall>j'\<in>set (jobs (storage s')). jobId j' = jobId j \<longrightarrow> jstatus j' = Complete))
            \<and> (\<forall>i. resolvedCount i (storage s) \<le> resolvedCount i (storage s')))"
proof
  note wf = reachable_wellFormed [OF re]
  show "\<forall>j\<in>set (jobs (storage s)). jstatus j = Complete \<longrightarrow>
            resolvedCount (jobId j) (storage s) = totalCount (jobId j) (storage s)"
  proof (intro ballI impI)
    fix j assume "j \<in> set (jobs (storage s))" "jstatus j = Complete"
    with wf have "\<forall>x\<in>set (requests (storage s)). rjobId x = jobId j \<longrightarrow> \<not> pending x"
      by (simp add: wellFormed_def completeResolved_def)
    from resolved_total [OF this] show "resolvedCount (jobId j) (storage s) = totalCount (jobId j) (storage s)"
      by (simp add: resolvedCount_def totalCount_def)
  qed
  have step: "(\<forall>j\<in>set (jobs (storage s)). jstatus j = Complete \<longrightarrow>
               (\<forall>j'\<in>set (jobs (storage s')). jobId j' = jobId j \<longrightarrow> jstatus j' = Complete))
            \<and> (\<forall>i. resolvedCount i (storage s) \<le> resolvedCount i (storage s'))"
    if ev: "evolved (storage s) (storage s')" and re': "reachable s'" for s'
  proof (intro conjI ballI impI allI)
    from reachable_wellFormed [OF re'] have d: "distinct (map jobId (jobs (storage s')))"
      by (simp add: wellFormed_def)
    fix j j' assume "j \<in> set (jobs (storage s))" "jstatus j = Complete" "j' \<in> set (jobs (storage s'))"
      "jobId j' = jobId j"
    from evolved_complete [OF ev d this] show "jstatus j' = Complete" .
  next
    fix i show "resolvedCount i (storage s) \<le> resolvedCount i (storage s')" by (rule evolved_count [OF ev])
  qed
  show "\<forall>s'\<in>{snd (schedule w s jid rq optArg), snd (status_of w s jid), snd (restart w s)}.
            (\<forall>j\<in>set (jobs (storage s)). jstatus j = Complete \<longrightarrow>
               (\<forall>j'\<in>set (jobs (storage s')). jobId j' = jobId j \<longrightarrow> jstatus j' = Complete))
            \<and> (\<forall>i. resolvedCount i (storage s) \<le> resolvedCount i (storage s'))"
  proof
    fix s' assume "s' \<in> {snd (schedule w s jid rq optArg), snd (status_of w s jid), snd (restart w s)}"
    then consider "s' = snd (schedule w s jid rq optArg)" | "s' = snd (status_of w s jid)" | "s' = snd (restart w s)"
      by blast
    then show "(\<forall>j\<in>set (jobs (storage s)). jstatus j = Complete \<longrightarrow>
               (\<forall>j'\<in>set (jobs (storage s')). jobId j' = jobId j \<longrightarrow> jstatus j' = Complete))
            \<and> (\<forall>i. resolvedCount i (storage s) \<le> resolvedCount i (storage s'))"
    proof cases
      case 1
      show ?thesis unfolding 1 by (rule step [OF operation_evolved(1) [OF re] reachable.scheduled [OF re]])
    next
      case 2
      show ?thesis unfolding 2 by (rule step [OF operation_evolved(2) [OF re] reachable.polled [OF re]])
    next
      case 3
      show ?thesis unfolding 3 by (rule step [OF operation_evolved(3) [OF re] reachable.restarted [OF re]])
    qed
  qed
qed

theorem job_progress_monotone_witness:
  "reachable (afterFault 11)
   \<and> resolvedCount ''j1'' (storage (afterFault 11)) = 1
   \<and> resolvedCount ''j1'' (storage (afterFault 11))
       \<le> resolvedCount ''j1'' (storage (snd (restart (worldWith [] []) (afterFault 11))))
   \<and> resolvedCount ''j1'' (storage (snd (restart (worldWith [] []) (afterFault 11)))) = 2
   \<and> map jstatus (jobs (storage (snd (restart (worldWith [] []) (afterFault 11))))) = [Complete]"
proof -
  let ?s = "afterFault 11"
  let ?w = "worldWith [] []"
  have a: "resolvedCount ''j1'' (storage ?s) = 1" by code_simp
  have b: "resolvedCount ''j1'' (storage (snd (restart ?w ?s))) = 2" by code_simp
  have c: "map jstatus (jobs (storage (snd (restart ?w ?s)))) = [Complete]" by code_simp
  from job_progress_monotone [OF reachable_afterFault [of 11], where w = ?w and jid = "''j1''"
      and rq = twoRequests and optArg = None]
  have "\<forall>s'\<in>{snd (schedule ?w ?s ''j1'' twoRequests None), snd (status_of ?w ?s ''j1''), snd (restart ?w ?s)}.
            (\<forall>j\<in>set (jobs (storage ?s)). jstatus j = Complete \<longrightarrow>
               (\<forall>j'\<in>set (jobs (storage s')). jobId j' = jobId j \<longrightarrow> jstatus j' = Complete))
            \<and> (\<forall>i. resolvedCount i (storage ?s) \<le> resolvedCount i (storage s'))"
    by (rule conjunct2)
  then have "resolvedCount ''j1'' (storage ?s) \<le> resolvedCount ''j1'' (storage (snd (restart ?w ?s)))"
    by blast
  with a b c reachable_afterFault [of 11] show ?thesis by (intro conjI)
qed

section \<open>The flag after a failure\<close>

lemma schedule_busy:
  assumes run: "schedule w s jid rq optArg = (res, s')" and busy: "processing s"
  shows "processing s' \<and> dispatched s' = dispatched s
       \<and> (\<exists>vs. requests (storage s') = requests (storage s) @ vs)"
  using run
proof (cases rule: schedule_cases)
  case (initFailed u)
  with initialize_effect [OF initFailed(1)] busy show ?thesis by simp
next
  case (invalid msg)
  with initialize_effect [OF invalid(1)] busy show ?thesis by simp
next
  case (lookupFailed s1 u)
  with initialize_effect [OF lookupFailed(1)] storageRead_mem [OF lookupFailed(3)] busy show ?thesis by simp
next
  case (existing s1 i)
  with initialize_effect [OF existing(1)] storageRead_mem [OF existing(3)] busy show ?thesis by simp
next
  case (admissionFailed s1 s2 u)
  from admission_effect [OF admissionFailed(4)] admissionFailed(5)
  have "storage s' = storage s2" "processing s' = processing s2" "dispatched s' = dispatched s2" by auto
  with initialize_effect [OF admissionFailed(1)] storageRead_mem [OF admissionFailed(3)] busy show ?thesis by simp
next
  case (admitted s1 s2 s5 u)
  let ?opts = "case optArg of None \<Rightarrow> defaultOptions | Some opts \<Rightarrow> opts"
  from admission_effect [OF admitted(4)]
  have st5: "storage s5 = admitted jid (clock s2) (oRateLimit ?opts) (oUnit ?opts) (entries rq) (storage s2)"
    and m5: "processing s5 = processing s2" "dispatched s5 = dispatched s2" by simp_all
  from initialize_effect [OF admitted(1)] storageRead_mem [OF admitted(3)] busy m5
  have b5: "processing s5" "dispatched s5 = dispatched s" "storage s2 = storage s" by simp_all
  from admitted(5) b5(1) have "s' = s5" by simp
  with st5 b5 show ?thesis by (simp add: admitted_def)
qed

lemma status_of_mem:
  "processing (snd (status_of w s jid)) = processing s \<and> dispatched (snd (status_of w s jid)) = dispatched s"
proof -
  obtain res s' where run: "status_of w s jid = (res, s')" by (cases "status_of w s jid")
  from run have "processing s' = processing s \<and> dispatched s' = dispatched s"
    unfolding status_of_def
  proof (cases rule: andThenE)
    case (continued a s1)
    note i = initialize_effect [OF continued(1)]
    from continued(2) show ?thesis
    proof (cases rule: andThenE)
      case (continued job s2)
      note r = storageRead_mem [OF continued(1)]
      show ?thesis
      proof (cases job)
        case None
        with continued(2) i r show ?thesis by auto
      next
        case (Some row)
        obtain j dn tot where row: "row = (j, dn, tot)" by (cases row)
        show ?thesis
        proof (cases "jstatus j = Complete")
          case True
          with continued(2) Some row
          have "andThen (storageRead w s2 (resultRows jid)) (\<lambda>rs s3. (Returned (Completed rs), s3)) = (res, s')"
            by simp
          then show ?thesis
          proof (cases rule: andThenE)
            case (continued rs s3)
            with storageRead_mem [OF continued(1)] i r show ?thesis by auto
          next
            case (raised e)
            with storageRead_mem [OF raised(1)] i r show ?thesis by auto
          next
            case crashed
            with storageRead_mem [OF crashed(1)] i r show ?thesis by auto
          qed
        next
          case False
          with continued(2) Some row i r show ?thesis by auto
        qed
      qed
    next
      case (raised e)
      with storageRead_mem [OF raised(1)] i show ?thesis by auto
    next
      case crashed
      with storageRead_mem [OF crashed(1)] i show ?thesis by auto
    qed
  next
    case (raised e)
    with initialize_effect [OF raised(1)] show ?thesis by auto
  next
    case crashed
    with initialize_effect [OF crashed(1)] show ?thesis by auto
  qed
  with run show ?thesis by simp
qed

text \<open>
  C10, as the claim states it, fails: \<open>resumeProcessing\<close> can leave by an exception
  with the flag reset. The flag is reset after the loop and before \<open>deleteAlarm\<close>, inside
  the same \<open>try\<close>; here the storage rejects \<open>deleteAlarm\<close> (call 7).
\<close>

theorem flag_reset_counterexample:
  "fst (resumeProcessing (worldWith [7] []) midJob) = Raised (StorageFault ''disk full'')
   \<and> \<not> processing (snd (resumeProcessing (worldWith [7] []) midJob))
   \<and> map jstatus (jobs (storage (snd (resumeProcessing (worldWith [7] []) midJob)))) = [Complete]
   \<and> alarm (storage (snd (resumeProcessing (worldWith [7] []) midJob))) = Some 6100"
proof -
  have a: "fst (resumeProcessing (worldWith [7] []) midJob) = Raised (StorageFault ''disk full'')" by code_simp
  have b: "\<not> processing (snd (resumeProcessing (worldWith [7] []) midJob))" by code_simp
  have c: "map jstatus (jobs (storage (snd (resumeProcessing (worldWith [7] []) midJob)))) = [Complete]"
    by code_simp
  have d: "alarm (storage (snd (resumeProcessing (worldWith [7] []) midJob))) = Some 6100" by code_simp
  from a b c d show ?thesis by (intro conjI)
qed


datatype call = Schedule string requestsArg "rateLimitOptions option" | Status string

fun perform :: "world \<Rightarrow> call \<Rightarrow> engine \<Rightarrow> engine" where
  "perform w (Schedule jid rq optArg) s = snd (schedule w s jid rq optArg)"
| "perform w (Status jid) s = snd (status_of w s jid)"

definition performAll :: "world \<Rightarrow> call list \<Rightarrow> engine \<Rightarrow> engine" where
  "performAll w cs s = foldl (\<lambda>t c. perform w c t) s cs"

lemma perform_busy:
  assumes "processing s"
  shows "processing (perform w c s) \<and> dispatched (perform w c s) = dispatched s
       \<and> prefix (map rid (requests (storage s))) (map rid (requests (storage (perform w c s))))"
proof (cases c)
  case (Schedule jid rq optArg)
  obtain r2 s2 where sch: "schedule w s jid rq optArg = (r2, s2)" by (cases "schedule w s jid rq optArg")
  from schedule_busy [OF sch assms] Schedule sch show ?thesis by auto
next
  case (Status jid)
  with status_of_mem [of w s jid] status_of_storage [of w s jid] assms show ?thesis by simp
qed

lemma performAll_busy:
  "processing s \<Longrightarrow> processing (performAll w cs s) \<and> dispatched (performAll w cs s) = dispatched s
       \<and> prefix (map rid (requests (storage s))) (map rid (requests (storage (performAll w cs s))))"
proof (induction cs arbitrary: s)
  case Nil
  then show ?case by (simp add: performAll_def)
next
  case (Cons c cs)
  note p = perform_busy [OF Cons.prems, of w c]
  from p have b: "processing (perform w c s)" by (rule conjunct1)
  have e: "performAll w (c # cs) s = performAll w cs (perform w c s)" by (simp add: performAll_def)
  from Cons.IH [OF b] p show ?case unfolding e by (auto intro: prefix_order.trans)
qed
text \<open>
  C10, amended. When the loop itself throws (an exception inside \<open>while (true)\<close>),
  \<open>resumeProcessing\<close> does not return normally and leaves the flag set; from then on, through
  every sequence of \<open>schedule\<close> and \<open>status\<close> calls on that instance, the flag stays set
  and no request is dispatched: \<open>schedule\<close> never re-enters the loop. (When the exception
  comes from \<open>deleteAlarm\<close>, after the loop, the flag has already been reset.)
\<close>

theorem loop_failure_keeps_flag:
  assumes idle: "\<not> processing s"
    and dist: "distinct (map rid (requests (storage s)))"
    and loop: "drain w (s\<lparr>processing := True\<rparr>) = (Raised e, s1)"
  shows "processing (snd (resumeProcessing w s))
       \<and> fst (resumeProcessing w s) \<noteq> Returned ()
       \<and> processing (performAll w2 cs (snd (resumeProcessing w s)))
       \<and> dispatched (performAll w2 cs (snd (resumeProcessing w s))) = dispatched (snd (resumeProcessing w s))"
proof -
  obtain res s' where run: "resumeProcessing w s = (res, s')" by (cases "resumeProcessing w s")
  from drain_effect [OF loop] dist have p1: "processing s1" by simp
  from run have flag: "processing s' \<and> res \<noteq> Returned ()"
  proof (cases rule: resumeProcessing_cases)
    case busy
    with idle show ?thesis by simp
  next
    case (finished s2 u)
    with loop show ?thesis by simp
  next
    case loopCrashed
    with loop show ?thesis by simp
  next
    case (loopRaised e0 s2 u)
    with loop have "s2 = s1" by simp
    with storageWrite_mem [OF loopRaised(3)] p1 loopRaised(4) show ?thesis by auto
  next
    case (deleteRaised e0 s2 s3 u)
    with loop show ?thesis by simp
  qed
  then have "processing s'" by (rule conjunct1)
  from performAll_busy [OF this, of w2 cs] flag run show ?thesis by simp
qed

theorem loop_failure_keeps_flag_witness:
  "\<not> processing midJob
   \<and> distinct (map rid (requests (storage midJob)))
   \<and> fst (drain (worldWith [3] []) (midJob\<lparr>processing := True\<rparr>)) = Raised (StorageFault ''disk full'')
   \<and> processing (snd (resumeProcessing (worldWith [3] []) midJob))
   \<and> processing (performAll (worldWith [] []) [Schedule ''j2'' twoRequests None, Status ''j1'']
         (snd (resumeProcessing (worldWith [3] []) midJob)))
   \<and> dispatched (performAll (worldWith [] []) [Schedule ''j2'' twoRequests None, Status ''j1'']
         (snd (resumeProcessing (worldWith [3] []) midJob)))
       = dispatched (snd (resumeProcessing (worldWith [3] []) midJob))
   \<and> map status (requests (storage (performAll (worldWith [] []) [Schedule ''j2'' twoRequests None, Status ''j1'']
         (snd (resumeProcessing (worldWith [3] []) midJob)))))
       = [Some 200, Some 200, None, None]"
proof -
  let ?cs = "[Schedule ''j2'' twoRequests None, Status ''j1'']"
  have i: "\<not> processing midJob" by (simp add: midJob_def)
  have d: "distinct (map rid (requests (storage midJob)))" by (simp add: midJob_def)
  have f: "fst (drain (worldWith [3] []) (midJob\<lparr>processing := True\<rparr>)) = Raised (StorageFault ''disk full'')"
    by code_simp
  then have l: "drain (worldWith [3] []) (midJob\<lparr>processing := True\<rparr>)
      = (Raised (StorageFault ''disk full''), snd (drain (worldWith [3] []) (midJob\<lparr>processing := True\<rparr>)))"
    by (metis prod.collapse)
  have m: "map status (requests (storage (performAll (worldWith [] []) ?cs
         (snd (resumeProcessing (worldWith [3] []) midJob)))))
       = [Some 200, Some 200, None, None]" by code_simp
  note th = loop_failure_keeps_flag [OF i d l, where ?w2.0 = "worldWith [] []" and cs = ?cs]
  from th have a: "processing (snd (resumeProcessing (worldWith [3] []) midJob))" by (rule conjunct1)
  from th have b: "processing (performAll (worldWith [] []) ?cs (snd (resumeProcessing (worldWith [3] []) midJob)))"
    by blast
  from th have c: "dispatched (performAll (worldWith [] []) ?cs (snd (resumeProcessing (worldWith [3] []) midJob)))
       = dispatched (snd (resumeProcessing (worldWith [3] []) midJob))" by blast
  from i d f a b c m show ?thesis by (intro conjI)
qed

section \<open>Resuming after a crash\<close>

text \<open>The storage rejects no call (the process may still die at one).\<close>

definition noFail :: "world \<Rightarrow> bool" where
  "noFail w \<longleftrightarrow> (\<forall>k m. storageW w k \<noteq> Fail m)"

text \<open>Row \<open>r\<close> after its request was executed at time \<open>t\<close> and the UPDATE went through.\<close>

definition answer :: "world \<Rightarrow> int \<Rightarrow> request \<Rightarrow> request" where
  "answer w t r =
     (case fetchW w (url r) (httpMethod r) (headers r) (body r) of
        FetchThrew m \<Rightarrow> r\<lparr>error := Some m, processedAt := Some t\<rparr>
      | Responded resp \<Rightarrow>
          (case decodeBody resp of
             Inl m \<Rightarrow> r\<lparr>error := Some m, processedAt := Some t\<rparr>
           | Inr d \<Rightarrow> r\<lparr>status := Some (rstatus resp), responseData := storedData d, processedAt := Some t\<rparr>))"

text \<open>The outcome fields of a row, with its id.\<close>

definition outcome :: "request \<Rightarrow> nat \<times> int option \<times> json option \<times> string option" where
  "outcome r = (rid r, status r, responseData r, error r)"

text \<open>A row the loop has still to execute: it is pending and its job is in state processing.\<close>

definition due :: "store \<Rightarrow> request \<Rightarrow> bool" where
  "due db x \<longleftrightarrow> pending x \<and> (\<exists>j\<in>set (jobs db). jobId j = rjobId x \<and> jstatus j = Processing)"

text \<open>The outcomes of the table once every row that is due has been executed.\<close>

definition goal :: "world \<Rightarrow> store \<Rightarrow> (nat \<times> int option \<times> json option \<times> string option) list" where
  "goal w db = map (\<lambda>x. outcome (if due db x then answer w 0 x else x)) (requests db)"

lemma answer_resolved: "\<not> pending (answer w t r)"
  by (simp add: answer_def pending_def split: fetch_result.splits sum.splits)

lemma answer_rid: "rid (answer w t r) = rid r"
  by (simp add: answer_def split: fetch_result.splits sum.splits)

lemma outcome_answer: "outcome (answer w t r) = outcome (answer w 0 r)"
  by (simp add: answer_def outcome_def split: fetch_result.splits sum.splits)

lemma settle_exact:
  assumes nf: "noFail w" and run: "settle w r s = (res, s')"
    and own: "\<forall>x\<in>set (requests (storage s)). rid x = rid r \<longrightarrow> x = r"
  shows "requests (storage s') = requests (storage s)
       \<or> requests (storage s') = map (\<lambda>x. if rid x = rid r then answer w (clock s) r else x) (requests (storage s))"
proof -
  let ?s1 = "s\<lparr>dispatched := dispatched s @ [rid r]\<rparr>"
  let ?rows = "requests (storage s)"
  from nf have f: "\<And>k m. storageW w k \<noteq> Fail m" by (simp add: noFail_def)
  have e: "map (\<lambda>x. if rid x = rid r then g x else x) ?rows
      = map (\<lambda>x. if rid x = rid r then g r else x) ?rows" for g :: "request \<Rightarrow> request"
    using own by (intro map_cong) auto
  have wr: "requests (storage s2) = ?rows
          \<or> requests (storage s2) = map (\<lambda>x. if rid x = rid r then g r else x) ?rows"
    if "storageWrite w ?s1 u = (r2, s2)" "\<And>db. requests (u db) = map (\<lambda>x. if rid x = rid r then g x else x) (requests db)"
    for u r2 s2 and g :: "request \<Rightarrow> request"
    using storageWrite_event [OF that(1)] that(2) e [of g] by (cases r2) auto
  show ?thesis
  proof (cases "fetchW w (url r) (httpMethod r) (headers r) (body r)")
    case (FetchThrew m)
    then have a: "attempt w r s = (Raised (Error m), ?s1)" by (simp add: attempt_def)
    with run have "storageWrite w ?s1 (recordError (rid r) m (clock s)) = (res, s')"
      by (simp add: settle_def tryCatch_def)
    then have sw: "storageWrite w ?s1 (recordError (rid r) m (clock s)) = (res, s')" .
    have ans: "answer w (clock s) r = r\<lparr>error := Some m, processedAt := Some (clock s)\<rparr>"
      by (simp add: answer_def FetchThrew)
    show ?thesis unfolding ans
      using sw wr [of "recordError (rid r) m (clock s)" res s' "\<lambda>x. x\<lparr>error := Some m, processedAt := Some (clock s)\<rparr>"]
      by (simp add: recordError_def)
  next
    case (Responded resp)
    show ?thesis
    proof (cases "decodeBody resp")
      case (Inl m)
      with Responded have a: "attempt w r s = (Raised (Error m), ?s1)" by (simp add: attempt_def)
      with run have "storageWrite w ?s1 (recordError (rid r) m (clock s)) = (res, s')"
        by (simp add: settle_def tryCatch_def)
      then have sw: "storageWrite w ?s1 (recordError (rid r) m (clock s)) = (res, s')" .
      have ans: "answer w (clock s) r = r\<lparr>error := Some m, processedAt := Some (clock s)\<rparr>"
        by (simp add: answer_def Responded Inl)
      show ?thesis unfolding ans
        using sw wr [of "recordError (rid r) m (clock s)" res s' "\<lambda>x. x\<lparr>error := Some m, processedAt := Some (clock s)\<rparr>"]
        by (simp add: recordError_def)
    next
      case (Inr d)
      let ?u = "recordStatus (rid r) (rstatus resp) (storedData d) (clock s)"
      from Responded Inr have a: "attempt w r s = storageWrite w ?s1 ?u" by (simp add: attempt_def)
      obtain r2 s2 where w2: "storageWrite w ?s1 ?u = (r2, s2)" by (cases "storageWrite w ?s1 ?u")
      from storageWrite_event [OF w2] f have "r2 = Returned () \<or> r2 = Crashed" by (cases r2) auto
      with run a w2 have sw: "s' = s2" by (auto simp: settle_def tryCatch_def)
      have ans: "answer w (clock s) r
          = r\<lparr>status := Some (rstatus resp), responseData := storedData d, processedAt := Some (clock s)\<rparr>"
        by (simp add: answer_def Responded Inr)
      show ?thesis unfolding ans
        using sw wr [of ?u r2 s2 "\<lambda>x. x\<lparr>status := Some (rstatus resp), responseData := storedData d, processedAt := Some (clock s)\<rparr>"] w2
        by (simp add: recordStatus_def)
    qed
  qed
qed

lemma jobKept_due:
  assumes "list_all2 jobKept (jobs db) (jobs db')"
  shows "due db' x = due db x"
proof -
  have "(\<exists>j\<in>set (jobs db'). jobId j = i \<and> jstatus j = Processing)
      = (\<exists>j\<in>set (jobs db). jobId j = i \<and> jstatus j = Processing)" for i
  proof
    assume "\<exists>j\<in>set (jobs db'). jobId j = i \<and> jstatus j = Processing"
    then obtain j' where j': "j' \<in> set (jobs db')" "jobId j' = i" "jstatus j' = Processing" by blast
    from list_all2_set2 [OF assms j'(1)] obtain j where "j \<in> set (jobs db)" "jobKept j j'" by blast
    with j' show "\<exists>j\<in>set (jobs db). jobId j = i \<and> jstatus j = Processing"
      by (auto simp: jobKept_def jobAdv_def)
  next
    assume "\<exists>j\<in>set (jobs db). jobId j = i \<and> jstatus j = Processing"
    then obtain j where j: "j \<in> set (jobs db)" "jobId j = i" "jstatus j = Processing" by blast
    from jobKept_find [OF assms j(1)] j show "\<exists>j\<in>set (jobs db'). jobId j = i \<and> jstatus j = Processing"
      by auto
  qed
  then show ?thesis by (simp add: due_def)
qed

text \<open>Executing a row that is due leaves the goal as it is.\<close>

lemma goal_answer:
  assumes dist: "distinct (map rid (requests db))" and r: "r \<in> set (requests db)" "due db r"
    and rows: "requests db' = map (\<lambda>x. if rid x = rid r then answer w t r else x) (requests db)"
    and js: "list_all2 jobKept (jobs db) (jobs db')"
  shows "goal w db' = goal w db"
proof -
  have "outcome (if due db' (if rid x = rid r then answer w t r else x)
                 then answer w 0 (if rid x = rid r then answer w t r else x)
                 else (if rid x = rid r then answer w t r else x))
      = outcome (if due db x then answer w 0 x else x)" if x: "x \<in> set (requests db)" for x
  proof (cases "rid x = rid r")
    case True
    with dist r(1) x have "x = r" by (auto simp: distinct_map dest: inj_onD)
    with r(2) True show ?thesis by (simp add: due_def answer_resolved outcome_answer [of w t])
  next
    case False
    then show ?thesis by (simp add: jobKept_due [OF js])
  qed
  then show ?thesis by (simp add: goal_def rows)
qed

lemma goal_same:
  assumes "requests db' = requests db" and "list_all2 jobKept (jobs db) (jobs db')"
  shows "goal w db' = goal w db"
  using assms by (simp add: goal_def jobKept_due)

lemma touched_map_rid: "list_all2 (touched i) xs ys \<Longrightarrow> map rid ys = map rid xs"
  by (induction rule: list_all2_induct) (auto simp: touched_def)

lemma processOne_exact:
  assumes nf: "noFail w" and run: "processOne w delay jid r s = (res, s')"
    and own: "\<forall>x\<in>set (requests (storage s)). rid x = rid r \<longrightarrow> x = r"
  shows "requests (storage s') = requests (storage s)
       \<or> (\<exists>t. requests (storage s') = map (\<lambda>x. if rid x = rid r then answer w t r else x) (requests (storage s)))"
  using run unfolding processOne_def
proof (cases rule: andThenE)
  case (continued a s1)
  with settle_exact [OF nf continued(1) own] processOne_tail [OF continued(2)] show ?thesis by auto
next
  case (raised e)
  with settle_exact [OF nf raised(1) own] show ?thesis by auto
next
  case crashed
  with settle_exact [OF nf crashed(1) own] show ?thesis by auto
qed

lemma processOne_goal:
  assumes nf: "noFail w" and run: "processOne w delay jid r s = (res, s')"
    and dist: "distinct (map rid (requests (storage s)))"
    and r: "r \<in> set (requests (storage s))" "due (storage s) r"
  shows "goal w (storage s') = goal w (storage s)"
proof -
  from dist r(1) have own: "\<forall>x\<in>set (requests (storage s)). rid x = rid r \<longrightarrow> x = r"
    by (auto simp: distinct_map dest: inj_onD)
  note js = processOne_jobs [OF run]
  from processOne_exact [OF nf run own] show ?thesis
  proof (elim disjE exE)
    assume "requests (storage s') = requests (storage s)"
    then show ?thesis using js by (rule goal_same)
  next
    fix t assume "requests (storage s') = map (\<lambda>x. if rid x = rid r then answer w t r else x) (requests (storage s))"
    from goal_answer [OF dist r this js] show ?thesis .
  qed
qed

lemma processRequests_goal:
  assumes nf: "noFail w" and run: "processRequests w delay jid rs s = (res, s')"
    and dist: "distinct (map rid (requests (storage s)))"
    and sub: "set rs \<subseteq> set (requests (storage s))"
    and drs: "distinct (map rid rs)"
    and due: "\<forall>r\<in>set rs. due (storage s) r"
  shows "goal w (storage s') = goal w (storage s)"
  using run dist sub drs due
proof (induction rs arbitrary: s)
  case Nil
  then show ?case by simp
next
  case (Cons r rs)
  obtain r1 s1 where p: "processOne w delay jid r s = (r1, s1)" by (cases "processOne w delay jid r s")
  from Cons.prems have r: "r \<in> set (requests (storage s))" "due (storage s) r" by auto
  note g1 = processOne_goal [OF nf p Cons.prems(2) r]
  show ?case
  proof (cases r1)
    case (Returned u)
    with Cons.prems(1) p have run: "processRequests w delay jid rs s1 = (res, s')" by simp
    from touched_map_rid [OF processOne_touched [OF p]] Cons.prems(2)
    have dist1: "distinct (map rid (requests (storage s1)))" by simp
    from Cons.prems(2) r(1) have own: "\<forall>x\<in>set (requests (storage s)). rid x = rid r \<longrightarrow> x = r"
      by (auto simp: distinct_map dest: inj_onD)
    have sub1: "set rs \<subseteq> set (requests (storage s1))"
    proof
      fix y assume y: "y \<in> set rs"
      from y Cons.prems(3) have y1: "y \<in> set (requests (storage s))" by auto
      from Cons.prems(4) have "rid r \<notin> rid ` set rs" by simp
      with y have y2: "rid y \<noteq> rid r" by (metis imageI)
      note y0 = y1 y2
      from processOne_exact [OF nf p own] show "y \<in> set (requests (storage s1))"
      proof (elim disjE exE)
        assume "requests (storage s1) = requests (storage s)"
        with y0 show ?thesis by simp
      next
        fix t assume e: "requests (storage s1) = map (\<lambda>x. if rid x = rid r then answer w t r else x) (requests (storage s))"
        from y0 have "(\<lambda>x. if rid x = rid r then answer w t r else x) y \<in> set (requests (storage s1))"
          unfolding e set_map by (intro imageI)
        with y0(2) show ?thesis by simp
      qed
    qed
    from Cons.prems(5) jobKept_due [OF processOne_jobs [OF p]]
    have due1: "\<forall>y\<in>set rs. due (storage s1) y" by simp
    from Cons.prems(4) have drs1: "distinct (map rid rs)" by simp
    from Cons.IH [OF run dist1 sub1 drs1 due1] g1 show ?thesis by simp
  next
    case (Raised e)
    with Cons.prems(1) p have "s' = s1" by auto
    with g1 show ?thesis by simp
  next
    case Crashed
    with Cons.prems(1) p have "s' = s1" by auto
    with g1 show ?thesis by simp
  qed
qed

lemma goal_completeJob:
  assumes "\<forall>x\<in>set (requests db). rjobId x = jid \<longrightarrow> \<not> pending x"
  shows "goal w (completeJob jid db) = goal w db"
proof -
  have "due (completeJob jid db) x = due db x" if "x \<in> set (requests db)" for x
    using that assms by (auto simp: due_def completeJob_def)
  then show ?thesis by (simp add: goal_def completeJob_def cong: map_cong)
qed

text \<open>The rows that a round has run are rows that were due, each run once.\<close>

definition dueIds :: "store \<Rightarrow> nat set" where
  "dueIds db = rid ` {x \<in> set (requests db). due db x}"

lemma drainRound_goal:
  assumes nf: "noFail w" and run: "drainRound w s = (res, s')"
    and dist: "distinct (map rid (requests (storage s)))"
  shows "goal w (storage s') = goal w (storage s)
       \<and> (\<exists>new. dispatched s' = dispatched s @ new \<and> distinct new \<and> set new \<subseteq> dueIds (storage s)
             \<and> (res = Returned True \<longrightarrow> set new \<inter> dueIds (storage s') = {}))"
  using run
proof (cases rule: drainRound_cases)
  case idle
  from storageRead_mem [OF idle(1)] show ?thesis by simp
next
  case (noRead u)
  from storageRead_mem [OF noRead(1)] show ?thesis by simp
next
  case (noList j s1 u)
  from storageRead_mem [OF noList(1)] storageRead_mem [OF noList(2)] show ?thesis by simp
next
  case (stopped j s1 rs s2 u)
  note f1 = storageRead_mem [OF stopped(1)] and f2 = storageRead_mem [OF stopped(2)]
  from f1 f2 have st: "storage s2 = storage s" and dp: "dispatched s2 = dispatched s" by simp_all
  from storageRead_Returned [OF stopped(2)] f1 have rs: "rs = pendingRequests (jobId j) (storage s)" by simp
  from storageRead_Returned [OF stopped(1)] have "nextQueuedJob (storage s) = Some j" by simp
  note j = nextQueuedJob_Some [OF this]
  have d: "distinct (map rid rs)" unfolding rs by (rule pendingRequests_distinct [OF dist])
  have sub: "set rs \<subseteq> set (requests (storage s2))" by (auto simp: rs st pendingRequests_set)
  have due: "\<forall>r\<in>set rs. due (storage s2) r" using j by (auto simp: rs st pendingRequests_set due_def)
  from dist st have dist2: "distinct (map rid (requests (storage s2)))" by simp
  from processRequests_goal [OF nf stopped(3) dist2 sub d due] st
  have g: "goal w (storage s') = goal w (storage s)" by simp
  let ?new = "map rid (take (length (dispatched s') - length (dispatched s2)) rs)"
  from processRequests_frame [OF stopped(3)] dp have "dispatched s' = dispatched s @ ?new" by simp
  moreover from d have "distinct ?new" by (simp add: take_map [symmetric] del: take_map)
  moreover have "set ?new \<subseteq> dueIds (storage s)"
    using sub due st by (auto simp: dueIds_def dest!: in_set_takeD)
  moreover from stopped(4) have "res \<noteq> Returned True" by auto
  ultimately show ?thesis using g by blast
next
  case (run j s1 rs s2 s3 u)
  note f1 = storageRead_mem [OF run(1)] and f2 = storageRead_mem [OF run(2)]
  from f1 f2 have st: "storage s2 = storage s" and dp: "dispatched s2 = dispatched s" by simp_all
  from storageRead_Returned [OF run(2)] f1 have rs: "rs = pendingRequests (jobId j) (storage s)" by simp
  from storageRead_Returned [OF run(1)] have "nextQueuedJob (storage s) = Some j" by simp
  note j = nextQueuedJob_Some [OF this]
  have d: "distinct (map rid rs)" unfolding rs by (rule pendingRequests_distinct [OF dist])
  have sub: "set rs \<subseteq> set (requests (storage s2))" by (auto simp: rs st pendingRequests_set)
  have due: "\<forall>r\<in>set rs. due (storage s2) r" using j by (auto simp: rs st pendingRequests_set due_def)
  from dist st have dist2: "distinct (map rid (requests (storage s2)))" by simp
  from processRequests_goal [OF nf run(3) dist2 sub d due] st
  have g3: "goal w (storage s3) = goal w (storage s)" by simp
  have p: "\<forall>x\<in>set (requests (storage s2)). rid x \<in> rid ` set rs \<longrightarrow> pending x"
  proof (intro ballI impI)
    fix x assume x: "x \<in> set (requests (storage s2))" "rid x \<in> rid ` set rs"
    then obtain r where r: "r \<in> set rs" "rid r = rid x" by auto
    with rs have "r \<in> set (requests (storage s))" "pending r" by (auto simp: pendingRequests_set)
    with dist x st r(2) have "x = r" by (auto simp: distinct_map dest: inj_onD)
    with \<open>pending r\<close> show "pending x" by simp
  qed
  note rows = processRequests_rows [OF run(3) d p]
  have none: "\<not> pending x'" if x3: "x' \<in> set (requests (storage s3))" and own: "rjobId x' = jobId j" for x'
  proof -
    from list_all2_set2 [OF conjunct1 [OF rows] x3] st obtain x
      where x: "x \<in> set (requests (storage s))" "settledIn (rid ` set rs) x x'" by auto
    note ra = settledIn_rowAdv [OF x(2)]
    show ?thesis
    proof (cases "pending x")
      case True
      with x(1) rowAdv_rid [OF ra] own have "x \<in> set rs" by (simp add: rs pendingRequests_set)
      with rowAdv_rid [OF ra] have "rid x' \<in> rid ` set rs" by force
      with rows x3 show ?thesis by simp
    next
      case False
      with rowAdv_resolved [OF ra] show ?thesis by simp
    qed
  qed
  note ev = storageWrite_event [OF run(4)]
  from ev have "storage s' = storage s3 \<or> storage s' = completeJob (jobId j) (storage s3)"
    by (cases u) auto
  with goal_completeJob [of "storage s3" "jobId j" w] none g3
  have g: "goal w (storage s') = goal w (storage s)" by auto
  let ?new = "map rid (take (length (dispatched s3) - length (dispatched s2)) rs)"
  from processRequests_frame [OF run(3)] dp storageWrite_mem [OF run(4)]
  have a: "dispatched s' = dispatched s @ ?new" by simp
  from d have b: "distinct ?new" by (simp add: take_map [symmetric] del: take_map)
  have c: "set ?new \<subseteq> dueIds (storage s)"
    using sub due st by (auto simp: dueIds_def dest!: in_set_takeD)
  have e: "set ?new \<inter> dueIds (storage s') = {}" if "res = Returned True"
  proof -
    from that run(5) ev have s': "storage s' = completeJob (jobId j) (storage s3)" by auto
    from rowAdv_map_rid [OF list_all2_mono [OF conjunct1 [OF rows]]] settledIn_rowAdv dist2
    have dist3: "distinct (map rid (requests (storage s3)))" by simp
    show ?thesis
    proof (rule ccontr)
      assume "set ?new \<inter> dueIds (storage s') \<noteq> {}"
      then obtain i where i: "i \<in> set ?new" "i \<in> dueIds (storage s')" by blast
      from i(2) s' obtain x' where x': "x' \<in> set (requests (storage s3))" "rid x' = i" "pending x'"
        by (auto simp: dueIds_def due_def completeJob_def)
      from i(1) have "i \<in> rid ` set rs" by (auto dest!: in_set_takeD)
      with rows x' show False by simp
    qed
  qed
  from a b c e g show ?thesis by blast
qed

lemma rowAdv_pending: "rowAdv x x' \<Longrightarrow> pending x' \<Longrightarrow> x' = x"
  by (auto simp: rowAdv_def pending_def)

lemma advanced_dueIds:
  assumes "advanced s s'"
  shows "dueIds (storage s') \<subseteq> dueIds (storage s)"
proof
  fix i assume "i \<in> dueIds (storage s')"
  then obtain x' j' where x': "x' \<in> set (requests (storage s'))" "rid x' = i" "pending x'"
    and j': "j' \<in> set (jobs (storage s'))" "jobId j' = rjobId x'" "jstatus j' = Processing"
    by (auto simp: dueIds_def due_def)
  from assms have rows: "list_all2 rowAdv (requests (storage s)) (requests (storage s'))"
    and js: "list_all2 jobAdv (jobs (storage s)) (jobs (storage s'))" by (simp_all add: advanced_def)
  from list_all2_set2 [OF rows x'(1)] obtain x where x: "x \<in> set (requests (storage s))" "rowAdv x x'" by blast
  from rowAdv_pending [OF x(2) x'(3)] have xx: "x' = x" .
  from list_all2_set2 [OF js j'(1)] obtain j where j: "j \<in> set (jobs (storage s))" "jobAdv j j'" by blast
  from j(2) have ji: "jobId j = jobId j'" by (simp add: jobAdv_def)
  from j(2) j'(3) have "jstatus j \<noteq> Complete" by (auto simp: jobAdv_def)
  then have "jstatus j = Processing" by (cases "jstatus j") auto
  with ji j(1) j'(2) x(1) x'(2,3) xx show "i \<in> dueIds (storage s)" by (auto simp: dueIds_def due_def)
qed

lemma drain_goal:
  assumes run: "drain w s = (res, s')"
    and dist: "distinct (map rid (requests (storage s)))"
    and nf: "noFail w"
  shows "goal w (storage s') = goal w (storage s)
       \<and> (\<exists>new. dispatched s' = dispatched s @ new \<and> distinct new \<and> set new \<subseteq> dueIds (storage s))"
  using run dist nf
proof (induction w s arbitrary: res s' rule: drain.induct)
  case (1 w s)
  obtain r1 s1 where round: "drainRound w s = (r1, s1)" by (cases "drainRound w s")
  note adv = drainRound_advanced [OF round "1.prems"(2)]
  from drainRound_goal [OF "1.prems"(3) round "1.prems"(2)]
  obtain new1 where g1: "goal w (storage s1) = goal w (storage s)"
    and n1: "dispatched s1 = dispatched s @ new1" "distinct new1" "set new1 \<subseteq> dueIds (storage s)"
      "r1 = Returned True \<longrightarrow> set new1 \<inter> dueIds (storage s1) = {}"
    by blast
  have stop: ?case if "s' = s1"
    using that g1 n1 by blast
  show ?case
  proof (cases r1)
    case (Returned b)
    show ?thesis
    proof (cases b)
      case True
      with Returned round "1.prems"(1) have run: "drain w s1 = (res, s')" by (simp add: drain.simps [of w s])
      from True have bt: "b = True" by simp
      from "1.IH" [OF round [symmetric] Returned bt run advanced_distinct [OF adv "1.prems"(2)] "1.prems"(3)]
      obtain new2 where g2: "goal w (storage s') = goal w (storage s1)"
        and n2: "dispatched s' = dispatched s1 @ new2" "distinct new2" "set new2 \<subseteq> dueIds (storage s1)"
        by blast
      from n1(4) Returned True have dj: "set new1 \<inter> dueIds (storage s1) = {}" by simp
      with n2(3) have "set new1 \<inter> set new2 = {}" by blast
      with n1(2) n2(2) have "distinct (new1 @ new2)" by simp
      moreover from n1(1) n2(1) have "dispatched s' = dispatched s @ (new1 @ new2)" by simp
      moreover from n1(3) n2(3) advanced_dueIds [OF adv] have "set (new1 @ new2) \<subseteq> dueIds (storage s)" by auto
      ultimately show ?thesis using g1 g2 by (intro conjI exI [of _ "new1 @ new2"]) simp_all
    next
      case False
      with Returned round "1.prems"(1) have "s' = s1" by (auto simp: drain.simps [of w s])
      then show ?thesis by (rule stop)
    qed
  next
    case (Raised e)
    with round "1.prems"(1) have "s' = s1" by (auto simp: drain.simps [of w s])
    then show ?thesis by (rule stop)
  next
    case Crashed
    with round "1.prems"(1) have "s' = s1" by (auto simp: drain.simps [of w s])
    then show ?thesis by (rule stop)
  qed
qed

lemma storageWrite_goal:
  assumes "storageWrite w s u = (res, s')"
    and "\<And>db. requests (u db) = requests db \<and> jobs (u db) = jobs db"
  shows "goal w (storage s') = goal w (storage s) \<and> jobs (storage s') = jobs (storage s)
       \<and> dispatched s' = dispatched s"
proof -
  from storageWrite_event [OF assms(1)]
  have "storage s' = storage s \<or> storage s' = u (storage s)" by (cases res) auto
  with assms(2) have "requests (storage s') = requests (storage s) \<and> jobs (storage s') = jobs (storage s)"
    by auto
  with storageWrite_mem [OF assms(1)] show ?thesis by (simp add: goal_def due_def)
qed

lemma queued_0_goal:
  assumes "queued db = 0"
  shows "goal w db = map outcome (requests db) \<and> dueIds db = {}
       \<and> (\<forall>j\<in>set (jobs db). jstatus j = Complete)"
proof -
  from assms have "filter (\<lambda>j. jstatus j = Processing) (jobs db) = []" by (simp add: queued_def)
  then have n: "\<forall>j\<in>set (jobs db). jstatus j \<noteq> Processing" by (simp add: filter_empty_conv)
  then have "\<not> due db x" for x by (auto simp: due_def)
  moreover have "jstatus j = Complete" if "j \<in> set (jobs db)" for j
    using n that by (cases "jstatus j") auto
  ultimately show ?thesis by (simp add: goal_def dueIds_def)
qed

lemma resumeProcessing_goal:
  assumes nf: "noFail w" and run: "resumeProcessing w s = (res, s')"
    and dist: "distinct (map rid (requests (storage s)))"
  shows "goal w (storage s') = goal w (storage s)
       \<and> (\<exists>new. dispatched s' = dispatched s @ new \<and> distinct new \<and> set new \<subseteq> dueIds (storage s))
       \<and> (\<not> processing s \<and> res = Returned () \<longrightarrow> queued (storage s') = 0)"
  using run
proof (cases rule: resumeProcessing_cases)
  case busy
  then show ?thesis by simp
next
  case (finished s1 u)
  from drain_goal [OF finished(2) _ nf] dist
  obtain new where g: "goal w (storage s1) = goal w (storage s)"
    and n: "dispatched s1 = dispatched s @ new" "distinct new" "set new \<subseteq> dueIds (storage s)"
    by auto
  from storageWrite_goal [OF finished(3)]
  have w1: "goal w (storage s') = goal w (storage s1)" "jobs (storage s') = jobs (storage s1)"
    "dispatched s' = dispatched s1" by (simp_all add: deleteAlarm_def)
  from drain_effect [OF finished(2)] dist have "queued (storage s1) = 0" by simp
  with w1(2) have "queued (storage s') = 0" by (simp add: queued_def)
  with g n w1 show ?thesis by auto
next
  case loopCrashed
  from drain_goal [OF loopCrashed(2) _ nf] dist loopCrashed(3) show ?thesis by auto
next
  case (loopRaised e s1 u)
  from drain_goal [OF loopRaised(2) _ nf] dist
  obtain new where g: "goal w (storage s1) = goal w (storage s)"
    and n: "dispatched s1 = dispatched s @ new" "distinct new" "set new \<subseteq> dueIds (storage s)"
    by auto
  from storageWrite_goal [OF loopRaised(3)]
  have w1: "goal w (storage s') = goal w (storage s1)" "dispatched s' = dispatched s1"
    by (simp_all add: setAlarm_def)
  from loopRaised(4) have "res \<noteq> Returned ()" by auto
  with g n w1 show ?thesis by auto
next
  case (deleteRaised e s1 s2 u)
  from drain_goal [OF deleteRaised(2) _ nf] dist
  obtain new where g: "goal w (storage s1) = goal w (storage s)"
    and n: "dispatched s1 = dispatched s @ new" "distinct new" "set new \<subseteq> dueIds (storage s)"
    by auto
  from storageWrite_goal [OF deleteRaised(3)]
  have w1: "goal w (storage s2) = goal w (storage s1)" "dispatched s2 = dispatched s1"
    by (simp_all add: deleteAlarm_def)
  from storageWrite_goal [OF deleteRaised(4)]
  have w2: "goal w (storage s') = goal w (storage s2)" "dispatched s' = dispatched s2"
    by (simp_all add: setAlarm_def)
  from deleteRaised(5) have "res \<noteq> Returned ()" by auto
  with g n w1 w2 show ?thesis by auto
qed

lemma restart_resumes:
  assumes "restart w s = (Returned (), s')" and "alarm (storage s) = Some t" and "t \<noteq> 0"
  shows "\<exists>s1. resumeProcessing w s1 = (Returned (), s') \<and> storage s1 = storage s
            \<and> \<not> processing s1 \<and> dispatched s1 = dispatched s"
  using assms(1) unfolding restart_def construct_def
proof (cases rule: andThenE)
  case (continued a s1)
  from storageRead_Returned [OF continued(1)] assms(2) have "a = Some t" by simp
  with continued(2) assms(3) have "resumeProcessing w s1 = (Returned (), s')" by simp
  with storageRead_mem [OF continued(1)] show ?thesis by (intro exI [of _ s1]) simp
qed simp_all

lemma goal_fetch: "fetchW w' = fetchW w \<Longrightarrow> goal w' db = goal w db"
  by (simp add: goal_def answer_def)

text \<open>An idle instance over job \<open>j1\<close> with its first request resolved, two requests
  pending and no alarm.\<close>

definition queuedJob :: engine where
  "queuedJob =
     midJob\<lparr>storage := (storage midJob)
       \<lparr>requests := requests (storage midJob) @
          [\<lparr>rid = 3, rjobId = ''j1'', url = Some ''https://x/c'', httpMethod = Some ''GET'',
             headers = None, body = None, status = None, responseData = None, error = None,
             processedAt = None\<rparr>],
        nextId := 4, alarm := None\<rparr>\<rparr>"

text \<open>The first instance after \<open>schedule\<close> of job \<open>j1\<close>, when the process dies at call \<open>k\<close>.\<close>

definition crashedAt :: "nat \<Rightarrow> engine" where
  "crashedAt k =
     snd (schedule (worldWith [] [k]) firstInstance ''j1'' twoRequests
            (Some \<lparr>oRateLimit = Finite 2, oUnit = ''second''\<rparr>))"

text \<open>
  C1. The recovery does not do what the constructor (lines 66 to 70) and the comment of
  line 408 mean it to do: the alarm is first armed at the end of the first round of the
  \<open>for\<close> loop (line 409), and a run of the loop ends by deleting it (line 429). Here
  the process dies at that first \<open>setAlarm\<close> (call 12), after the first request was
  resolved: the new instance finds no alarm and does not resume; a second \<open>schedule\<close> of
  the same job returns \<open>resuming: true\<close> and dispatches nothing; after one more restart
  the second request is still pending and the job still in state processing, while the
  uninterrupted run resolves both requests. When the process dies at call 10, before
  the first outcome is written, the whole job is left like that.
\<close>

theorem crash_before_alarm_counterexample:
  "fst (schedule (worldWith [] [12]) firstInstance ''j1'' twoRequests
          (Some \<lparr>oRateLimit = Finite 2, oUnit = ''second''\<rparr>)) = Crashed
   \<and> map status (requests (storage (crashedAt 12))) = [Some 200, None]
   \<and> alarm (storage (crashedAt 12)) = None
   \<and> fst (restart (worldWith [] [12]) (crashedAt 12)) = Returned ()
   \<and> map status (requests (storage (snd (restart (worldWith [] [12]) (crashedAt 12))))) = [Some 200, None]
   \<and> map jstatus (jobs (storage (snd (restart (worldWith [] [12]) (crashedAt 12))))) = [Processing]
   \<and> fst (schedule (worldWith [] [12]) (snd (restart (worldWith [] [12]) (crashedAt 12))) ''j1'' twoRequests
            (Some \<lparr>oRateLimit = Finite 2, oUnit = ''second''\<rparr>))
       = Returned \<lparr>rJobId = ''j1'', resuming = Some True\<rparr>
   \<and> dispatched (snd (schedule (worldWith [] [12]) (snd (restart (worldWith [] [12]) (crashedAt 12))) ''j1''
                         twoRequests (Some \<lparr>oRateLimit = Finite 2, oUnit = ''second''\<rparr>)))
       = dispatched (crashedAt 12)
   \<and> map status (requests (storage (snd (restart (worldWith [] [12])
         (snd (schedule (worldWith [] [12]) (snd (restart (worldWith [] [12]) (crashedAt 12))) ''j1''
                twoRequests (Some \<lparr>oRateLimit = Finite 2, oUnit = ''second''\<rparr>)))))))
       = [Some 200, None]
   \<and> map status (requests (storage (snd (restart (worldWith [] [10]) (crashedAt 10))))) = [None, None]
   \<and> alarm (storage (snd (restart (worldWith [] [10]) (crashedAt 10)))) = None
   \<and> map status (requests (storage (snd (schedule (worldWith [] []) firstInstance ''j1'' twoRequests
          (Some \<lparr>oRateLimit = Finite 2, oUnit = ''second''\<rparr>))))) = [Some 200, Some 200]"
proof -
  let ?w = "worldWith [] [12]"
  let ?o = "Some \<lparr>oRateLimit = Finite 2, oUnit = ''second''\<rparr>"
  let ?sR = "snd (restart ?w (crashedAt 12))"
  have a: "fst (schedule ?w firstInstance ''j1'' twoRequests ?o) = Crashed" by code_simp
  have b: "map status (requests (storage (crashedAt 12))) = [Some 200, None]" by code_simp
  have c: "alarm (storage (crashedAt 12)) = None" by code_simp
  have d: "fst (restart ?w (crashedAt 12)) = Returned ()" by code_simp
  have e: "map status (requests (storage ?sR)) = [Some 200, None]" by code_simp
  have f: "map jstatus (jobs (storage ?sR)) = [Processing]" by code_simp
  have g: "fst (schedule ?w ?sR ''j1'' twoRequests ?o) = Returned \<lparr>rJobId = ''j1'', resuming = Some True\<rparr>"
    by code_simp
  have h: "dispatched (snd (schedule ?w ?sR ''j1'' twoRequests ?o)) = dispatched (crashedAt 12)"
    by code_simp
  have i: "map status (requests (storage (snd (restart ?w (snd (schedule ?w ?sR ''j1'' twoRequests ?o))))))
       = [Some 200, None]" by code_simp
  have j: "map status (requests (storage (snd (restart (worldWith [] [10]) (crashedAt 10))))) = [None, None]"
    by code_simp
  have k: "alarm (storage (snd (restart (worldWith [] [10]) (crashedAt 10)))) = None" by code_simp
  have l: "map status (requests (storage (snd (schedule (worldWith [] []) firstInstance ''j1'' twoRequests ?o))))
       = [Some 200, Some 200]" by code_simp
  from a b c d e f g h i j k l show ?thesis by (intro conjI)
qed

text \<open>
  What holds of the recovery when the alarm is armed. The query of line 335 returns
  exactly the rows of the job whose status and error are both null, in ascending order
  of their ids. Let the storage reject no call and the destination answer a request the
  same way whenever it is sent. Let one run of the loop from an instance return, and let
  another run from the same instance stop because the process dies, with the alarm
  armed at that moment. Then the new instance resumes, and when it returns: it has executed only rows that were still due
  (pending, with their job in state processing), each once; every row that was resolved
  when the process died is as it was; no row is due any more and every job is complete;
  and every row has the status, response data and error that the uninterrupted run gave
  it, which are those of one execution of each row that was due at the start.
\<close>

theorem crash_resume_same_outcomes:
  assumes key: "distinct (map rid (requests (storage s)))"
    and nf: "noFail w" and nf': "noFail w'" and same: "fetchW w' = fetchW w"
    and whole: "resumeProcessing w s = (Returned (), sU)"
    and cut: "resumeProcessing w' s = (Crashed, sC)"
    and armed: "alarm (storage sC) = Some t" "t \<noteq> 0"
    and again: "restart w' sC = (Returned (), sR)"
  shows "set (pendingRequests jid db)
           = {x \<in> set (requests db). rjobId x = jid \<and> status x = None \<and> error x = None}
       \<and> sorted (map rid (pendingRequests jid db))
       \<and> (\<exists>new. dispatched sR = dispatched sC @ new \<and> distinct new \<and> set new \<subseteq> dueIds (storage sC))
       \<and> list_all2 rowAdv (requests (storage sC)) (requests (storage sR))
       \<and> dueIds (storage sR) = {}
       \<and> (\<forall>j\<in>set (jobs (storage sR)). jstatus j = Complete)
       \<and> map outcome (requests (storage sR)) = map outcome (requests (storage sU))
       \<and> map outcome (requests (storage sU)) = goal w (storage s)"
proof -
  have q1: "set (pendingRequests jid db)
           = {x \<in> set (requests db). rjobId x = jid \<and> status x = None \<and> error x = None}"
    by (auto simp: pendingRequests_def)
  have q2: "sorted (map rid (pendingRequests jid db))" by (simp add: pendingRequests_def)
  from cut have idle: "\<not> processing s" by (auto simp: resumeProcessing_def)
  from resumeProcessing_goal [OF nf whole key] idle
  have u: "goal w (storage sU) = goal w (storage s)" "queued (storage sU) = 0" by simp_all
  from queued_0_goal [OF u(2), of w] u(1)
  have gu: "map outcome (requests (storage sU)) = goal w (storage s)" by simp
  from resumeProcessing_goal [OF nf' cut key]
  have c: "goal w' (storage sC) = goal w' (storage s)" by simp
  from advanced_distinct [OF resumeProcessing_advanced [OF cut key] key]
  have keyC: "distinct (map rid (requests (storage sC)))" .
  from restart_resumes [OF again armed] obtain s1
    where s1: "resumeProcessing w' s1 = (Returned (), sR)" "storage s1 = storage sC"
      "\<not> processing s1" "dispatched s1 = dispatched sC" by blast
  from keyC s1(2) have key1: "distinct (map rid (requests (storage s1)))" by simp
  from resumeProcessing_goal [OF nf' s1(1) key1] s1(2,3,4)
  have r: "goal w' (storage sR) = goal w' (storage sC)"
    "\<exists>new. dispatched sR = dispatched sC @ new \<and> distinct new \<and> set new \<subseteq> dueIds (storage sC)"
    "queued (storage sR) = 0" by simp_all
  note z = queued_0_goal [OF r(3), of w']
  from z r(1) c goal_fetch [OF same] gu
  have gr: "map outcome (requests (storage sR)) = map outcome (requests (storage sU))" by simp
  from resumeProcessing_advanced [OF s1(1) key1] s1(2)
  have rows: "list_all2 rowAdv (requests (storage sC)) (requests (storage sR))" by (simp add: advanced_def)
  from z have d0: "dueIds (storage sR) = {}" and jc: "\<forall>j\<in>set (jobs (storage sR)). jstatus j = Complete"
    by simp_all
  from q1 q2 r(2) rows d0 jc gr gu show ?thesis by (intro conjI)
qed

theorem crash_resume_same_outcomes_witness:
  "distinct (map rid (requests (storage queuedJob)))
   \<and> noFail (worldWith [] []) \<and> noFail (worldWith [] [5])
   \<and> fst (resumeProcessing (worldWith [] []) queuedJob) = Returned ()
   \<and> fst (resumeProcessing (worldWith [] [5]) queuedJob) = Crashed
   \<and> map status (requests (storage (snd (resumeProcessing (worldWith [] [5]) queuedJob))))
       = [Some 200, Some 200, None]
   \<and> alarm (storage (snd (resumeProcessing (worldWith [] [5]) queuedJob))) = Some 6100
   \<and> fst (restart (worldWith [] [5]) (snd (resumeProcessing (worldWith [] [5]) queuedJob))) = Returned ()
   \<and> map outcome (requests (storage (snd (restart (worldWith [] [5])
                                            (snd (resumeProcessing (worldWith [] [5]) queuedJob))))))
       = map outcome (requests (storage (snd (resumeProcessing (worldWith [] []) queuedJob))))
   \<and> map status (requests (storage (snd (restart (worldWith [] [5])
                                            (snd (resumeProcessing (worldWith [] [5]) queuedJob))))))
       = [Some 200, Some 200, Some 200]
   \<and> dispatched (snd (restart (worldWith [] [5]) (snd (resumeProcessing (worldWith [] [5]) queuedJob))))
       = [2, 3, 3]"
proof -
  let ?w = "worldWith [] []" and ?w' = "worldWith [] [5]"
  let ?sU = "snd (resumeProcessing ?w queuedJob)"
  let ?sC = "snd (resumeProcessing ?w' queuedJob)"
  let ?sR = "snd (restart ?w' ?sC)"
  have key: "distinct (map rid (requests (storage queuedJob)))" by (simp add: queuedJob_def midJob_def)
  have nf: "noFail ?w" and nf': "noFail ?w'" by (simp_all add: noFail_def worldWith_def)
  have same: "fetchW ?w' = fetchW ?w" by (simp add: worldWith_def)
  have a: "fst (resumeProcessing ?w queuedJob) = Returned ()" by code_simp
  have b: "fst (resumeProcessing ?w' queuedJob) = Crashed" by code_simp
  have c: "map status (requests (storage ?sC)) = [Some 200, Some 200, None]" by code_simp
  have d: "alarm (storage ?sC) = Some 6100" by code_simp
  have e: "fst (restart ?w' ?sC) = Returned ()" by code_simp
  have f: "map status (requests (storage ?sR)) = [Some 200, Some 200, Some 200]" by code_simp
  have g: "dispatched ?sR = [2, 3, 3]" by code_simp
  from a have whole: "resumeProcessing ?w queuedJob = (Returned (), ?sU)" by (metis prod.collapse)
  from b have cut: "resumeProcessing ?w' queuedJob = (Crashed, ?sC)" by (metis prod.collapse)
  from e have again: "restart ?w' ?sC = (Returned (), ?sR)" by (metis prod.collapse)
  have t: "(6100::int) \<noteq> 0" by simp
  from crash_resume_same_outcomes [OF key nf nf' same whole cut d t again]
  have h: "map outcome (requests (storage ?sR)) = map outcome (requests (storage ?sU))" by blast
  from key nf nf' a b c d e h f g show ?thesis by (intro conjI)
qed

end
